theory Spec2Isabelle
  imports Main "HOL-Library.Word"
begin

section \<open>Memory model\<close>

text \<open>
  The container of \<^verbatim>\<open>single-linked-list.h\<close> is a pointer structure: iterators and the
  positional mutators work on raw \<^verbatim>\<open>Node*\<close> values, and two list objects exchange chains
  by exchanging pointers. The model therefore keeps an explicit store.

  An address is a 64-bit word; a \<^verbatim>\<open>Node*\<close> is an optional address, \<open>None\<close> being
  \<^verbatim>\<open>nullptr\<close>. The store is split by object kind: \<open>nodes\<close> holds every live \<^verbatim>\<open>Node\<close>
  (the heap nodes, and the sentinel \<^verbatim>\<open>head_\<close> of each list object, which as first member
  lies at the address of the list object itself), \<open>sizes\<close> holds the \<^verbatim>\<open>size_\<close> member of
  every live list object. \<^verbatim>\<open>size_t\<close> is 64 bits wide and \<^verbatim>\<open>int\<close> 32 bits (LP64).
\<close>

type_synonym addr = "64 word"
type_synonym ptr = "addr option"
type_synonym size_t = "64 word"

record 'a Node =
  val :: 'a
  next_node :: ptr

record 'a state =
  nodes :: "addr \<rightharpoonup> 'a Node"
  sizes :: "addr \<rightharpoonup> size_t"

text \<open>
  How a call can end other than by returning: a failed \<^verbatim>\<open>assert\<close> (builds without
  \<^verbatim>\<open>NDEBUG\<close>), \<^verbatim>\<open>std::bad_alloc\<close> thrown by \<^verbatim>\<open>new\<close>, and undefined behaviour (a null or
  dangling pointer is dereferenced). The flag \<open>ndebug\<close> of the operations below says
  whether \<^verbatim>\<open>NDEBUG\<close> is defined, that is, whether assertions are compiled out.
\<close>

datatype error = AssertionFailed | BadAlloc | UndefinedBehaviour

text \<open>
  \<^verbatim>\<open>Type value{}\<close> of the sentinel is the value-initialised element, \<open>default\<close> of the
  element type; for \<^verbatim>\<open>int\<close> that is 0.
\<close>

instantiation int :: default
begin
definition default_int :: int where "default_int = 0"
instance ..
end

section \<open>Iterators\<close>

text \<open>\<^verbatim>\<open>BasicIterator\<close> has the single member \<^verbatim>\<open>Node* node_\<close>.\<close>

type_synonym Iterator = ptr

definition it_bool :: "Iterator \<Rightarrow> bool" where
  "it_bool it = (it \<noteq> None)"

definition it_deref :: "bool \<Rightarrow> 'a state \<Rightarrow> Iterator \<Rightarrow> error + 'a" where
  "it_deref ndebug s it =
     (case it of
        None \<Rightarrow> Inl (if ndebug then UndefinedBehaviour else AssertionFailed)
      | Some a \<Rightarrow> (case nodes s a of None \<Rightarrow> Inl UndefinedBehaviour | Some n \<Rightarrow> Inr (val n)))"

definition it_incr :: "bool \<Rightarrow> 'a state \<Rightarrow> Iterator \<Rightarrow> error + Iterator" where
  "it_incr ndebug s it =
     (case it of
        None \<Rightarrow> Inl (if ndebug then UndefinedBehaviour else AssertionFailed)
      | Some a \<Rightarrow> (case nodes s a of None \<Rightarrow> Inl UndefinedBehaviour | Some n \<Rightarrow> Inr (next_node n)))"

section \<open>The list operations\<close>

text \<open>In every operation \<open>l\<close> is \<^verbatim>\<open>this\<close>, the address of the list object.\<close>

definition list_begin :: "addr \<Rightarrow> 'a state \<Rightarrow> error + Iterator" where
  "list_begin l s = (case nodes s l of None \<Rightarrow> Inl UndefinedBehaviour | Some head \<Rightarrow> Inr (next_node head))"

definition list_end :: "Iterator" where
  "list_end = None"

definition before_begin :: "addr \<Rightarrow> Iterator" where
  "before_begin l = Some l"

text \<open>The default constructor, building the object in the free storage at \<open>l\<close>.\<close>

definition SingleLinkedList :: "addr \<Rightarrow> 'a::default state \<Rightarrow> 'a state" where
  "SingleLinkedList l s =
     s\<lparr>nodes := (nodes s)(l \<mapsto> \<lparr>val = default, next_node = None\<rparr>), sizes := (sizes s)(l \<mapsto> 0)\<rparr>"

text \<open>
  \<^verbatim>\<open>Clear\<close>: the loop runs on the node store alone. It need not end (a cyclic chain), so
  it is a partial function and \<open>None\<close> means that it does not return.
\<close>

partial_function (option) Clear_loop :: "addr \<Rightarrow> (addr \<rightharpoonup> 'a Node) \<Rightarrow> (error + (addr \<rightharpoonup> 'a Node)) option" where
  "Clear_loop l h =
     (case h l of
        None \<Rightarrow> Some (Inl UndefinedBehaviour)
      | Some head \<Rightarrow>
          (case next_node head of
             None \<Rightarrow> Some (Inr h)
           | Some first \<Rightarrow>
               (case h first of
                  None \<Rightarrow> Some (Inl UndefinedBehaviour)
                | Some fnode \<Rightarrow> Clear_loop l ((h(l \<mapsto> head\<lparr>next_node := next_node fnode\<rparr>))(first := None)))))"

declare Clear_loop.simps [code]

definition Clear :: "addr \<Rightarrow> 'a state \<Rightarrow> (error + 'a state) option" where
  "Clear l s =
     (case Clear_loop l (nodes s) of
        None \<Rightarrow> None
      | Some (Inl e) \<Rightarrow> Some (Inl e)
      | Some (Inr h) \<Rightarrow>
          (case sizes s l of
             None \<Rightarrow> Some (Inl UndefinedBehaviour)
           | Some n \<Rightarrow> Some (Inr (s\<lparr>nodes := h, sizes := (sizes s)(l \<mapsto> 0)\<rparr>))))"

text \<open>\<^verbatim>\<open>int GetSize()\<close> returns the \<^verbatim>\<open>size_t\<close> counter narrowed to \<^verbatim>\<open>int\<close>.\<close>

definition GetSize :: "addr \<Rightarrow> 'a state \<Rightarrow> error + int" where
  "GetSize l s =
     (case sizes s l of None \<Rightarrow> Inl UndefinedBehaviour | Some n \<Rightarrow> Inr (sint (ucast n :: 32 word)))"

definition IsEmpty :: "addr \<Rightarrow> 'a state \<Rightarrow> error + bool" where
  "IsEmpty l s =
     (case nodes s l of None \<Rightarrow> Inl UndefinedBehaviour | Some head \<Rightarrow> Inr (next_node head = None))"

text \<open>
  \<^verbatim>\<open>new Node(...)\<close> is modelled by its outcome, an argument of the operation: \<open>Some a\<close>
  when the allocator hands out the address \<open>a\<close>, \<open>None\<close> when it throws.
  \<open>set_next\<close> is the assignment \<^verbatim>\<open>p->next_node = q\<close>.
\<close>

definition set_next :: "(addr \<rightharpoonup> 'a Node) \<Rightarrow> addr \<Rightarrow> ptr \<Rightarrow> (addr \<rightharpoonup> 'a Node)" where
  "set_next h p q = (case h p of None \<Rightarrow> h | Some n \<Rightarrow> h(p \<mapsto> n\<lparr>next_node := q\<rparr>))"

definition PushFront :: "addr \<Rightarrow> 'a \<Rightarrow> ptr \<Rightarrow> 'a state \<Rightarrow> error + 'a state" where
  "PushFront l v new s =
     (case new of
        None \<Rightarrow> Inl BadAlloc
      | Some new_node \<Rightarrow>
          (case nodes s l of
             None \<Rightarrow> Inl UndefinedBehaviour
           | Some head \<Rightarrow>
               (case sizes s l of
                  None \<Rightarrow> Inl UndefinedBehaviour
                | Some n \<Rightarrow>
                    Inr (s\<lparr>nodes := set_next ((nodes s)(new_node \<mapsto> \<lparr>val = v, next_node = next_node head\<rparr>)) l (Some new_node),
                           sizes := (sizes s)(l \<mapsto> n + 1)\<rparr>))))"

definition InsertAfter :: "bool \<Rightarrow> addr \<Rightarrow> Iterator \<Rightarrow> 'a \<Rightarrow> ptr \<Rightarrow> 'a state \<Rightarrow> error + (Iterator \<times> 'a state)" where
  "InsertAfter ndebug l pos v new s =
     (if \<not> ndebug \<and> \<not> it_bool pos then Inl AssertionFailed
      else case new of
        None \<Rightarrow> Inl BadAlloc
      | Some insert_node \<Rightarrow>
          (case pos of
             None \<Rightarrow> Inl UndefinedBehaviour
           | Some p \<Rightarrow>
               (case nodes s p of
                  None \<Rightarrow> Inl UndefinedBehaviour
                | Some pn \<Rightarrow>
                    (case sizes s l of
                       None \<Rightarrow> Inl UndefinedBehaviour
                     | Some n \<Rightarrow>
                         Inr (Some insert_node,
                              s\<lparr>nodes := set_next ((nodes s)(insert_node \<mapsto> \<lparr>val = v, next_node = next_node pn\<rparr>)) p (Some insert_node),
                                sizes := (sizes s)(l \<mapsto> n + 1)\<rparr>)))))"

definition PopFront :: "bool \<Rightarrow> addr \<Rightarrow> 'a state \<Rightarrow> error + 'a state" where
  "PopFront ndebug l s =
     (case IsEmpty l s of
        Inl e \<Rightarrow> Inl e
      | Inr True \<Rightarrow> (if ndebug then Inr s else Inl AssertionFailed)
      | Inr False \<Rightarrow>
          (case nodes s l of
             None \<Rightarrow> Inl UndefinedBehaviour
           | Some head \<Rightarrow>
               (case next_node head of
                  None \<Rightarrow> Inl UndefinedBehaviour
                | Some pop_node \<Rightarrow>
                    (case nodes s pop_node of
                       None \<Rightarrow> Inl UndefinedBehaviour
                     | Some pn \<Rightarrow>
                         (case sizes s l of
                            None \<Rightarrow> Inl UndefinedBehaviour
                          | Some n \<Rightarrow>
                              Inr (s\<lparr>nodes := (set_next (nodes s) l (next_node pn))(pop_node := None),
                                     sizes := (sizes s)(l \<mapsto> n - 1)\<rparr>))))))"

definition EraseAfter :: "bool \<Rightarrow> addr \<Rightarrow> Iterator \<Rightarrow> 'a state \<Rightarrow> error + (Iterator \<times> 'a state)" where
  "EraseAfter ndebug l pos s =
     (case pos of
        None \<Rightarrow> (if ndebug then Inr (None, s) else Inl AssertionFailed)
      | Some p \<Rightarrow>
          (case nodes s p of
             None \<Rightarrow> Inl UndefinedBehaviour
           | Some pn \<Rightarrow>
               (case next_node pn of
                  None \<Rightarrow> (if ndebug then Inr (None, s) else Inl AssertionFailed)
                | Some erase_node \<Rightarrow>
                    (case nodes s erase_node of
                       None \<Rightarrow> Inl UndefinedBehaviour
                     | Some en \<Rightarrow>
                         (case sizes s l of
                            None \<Rightarrow> Inl UndefinedBehaviour
                          | Some n \<Rightarrow>
                              (let h = (set_next (nodes s) p (next_node en))(erase_node := None)
                               in case h p of
                                    None \<Rightarrow> Inl UndefinedBehaviour
                                  | Some pn' \<Rightarrow>
                                      Inr (next_node pn', s\<lparr>nodes := h, sizes := (sizes s)(l \<mapsto> n - 1)\<rparr>)))))))"

definition swap :: "addr \<Rightarrow> addr \<Rightarrow> 'a state \<Rightarrow> error + 'a state" where
  "swap l other s =
     (case nodes s l of
        None \<Rightarrow> Inl UndefinedBehaviour
      | Some hl \<Rightarrow>
          (case nodes s other of
             None \<Rightarrow> Inl UndefinedBehaviour
           | Some ho \<Rightarrow>
               (case sizes s l of
                  None \<Rightarrow> Inl UndefinedBehaviour
                | Some nl \<Rightarrow>
                    (case sizes s other of
                       None \<Rightarrow> Inl UndefinedBehaviour
                     | Some no \<Rightarrow>
                         Inr (s\<lparr>nodes := set_next (set_next (nodes s) l (next_node ho)) other (next_node hl),
                                sizes := (sizes s)(l \<mapsto> no, other \<mapsto> nl)\<rparr>)))))"

text \<open>
  \<^verbatim>\<open>Initialize\<close> is a template over the container it reads; the header instantiates it
  twice. Both build the chain behind a local list \<^verbatim>\<open>temp\<close>, whose storage \<open>temp\<close> is an
  argument (an address of the caller's stack frame), swap it in and destroy \<^verbatim>\<open>temp\<close>.
  \<open>new\<close> lists the addresses that the successive \<^verbatim>\<open>new Node\<close> calls hand out; when it
  is used up the next call throws. An exception leaves the model with the error alone
  (the state after unwinding is not tracked).

  The destructor runs \<^verbatim>\<open>Clear\<close>; then the storage of the object is gone.
\<close>

definition destructor :: "addr \<Rightarrow> 'a state \<Rightarrow> (error + 'a state) option" where
  "destructor l s =
     (case Clear l s of
        None \<Rightarrow> None
      | Some (Inl e) \<Rightarrow> Some (Inl e)
      | Some (Inr s') \<Rightarrow> Some (Inr (s'\<lparr>nodes := (nodes s')(l := None), sizes := (sizes s')(l := None)\<rparr>)))"

text \<open>One turn of the loop body, shared by both instances: it appends a node behind \<open>node\<close>.\<close>

definition append_node :: "addr \<Rightarrow> addr \<Rightarrow> 'a \<Rightarrow> addr \<Rightarrow> 'a state \<Rightarrow> error + 'a state" where
  "append_node temp node element a s =
     (let h = (nodes s)(a \<mapsto> \<lparr>val = element, next_node = None\<rparr>)
      in case h node of
           None \<Rightarrow> Inl UndefinedBehaviour
         | Some n \<Rightarrow>
             (case sizes s temp of
                None \<Rightarrow> Inl UndefinedBehaviour
              | Some k \<Rightarrow> Inr (s\<lparr>nodes := h(node \<mapsto> n\<lparr>next_node := Some a\<rparr>), sizes := (sizes s)(temp \<mapsto> k + 1)\<rparr>)))"

text \<open>The loop over a \<^verbatim>\<open>std::initializer_list\<close>.\<close>

fun Initialize_loop :: "addr \<Rightarrow> addr \<Rightarrow> 'a list \<Rightarrow> addr list \<Rightarrow> 'a state \<Rightarrow> error + 'a state" where
  "Initialize_loop temp node [] new s = Inr s"
| "Initialize_loop temp node (element # container) [] s = Inl BadAlloc"
| "Initialize_loop temp node (element # container) (a # new) s =
     (case append_node temp node element a s of
        Inl e \<Rightarrow> Inl e
      | Inr s' \<Rightarrow> Initialize_loop temp a container new s')"

text \<open>The loop over another list, through its iterators.\<close>

partial_function (option) Initialize_loop_list :: "bool \<Rightarrow> addr \<Rightarrow> addr \<Rightarrow> Iterator \<Rightarrow> Iterator \<Rightarrow> addr list \<Rightarrow> 'a state \<Rightarrow> (error + 'a state) option" where
  "Initialize_loop_list ndebug temp node it stop new s =
     (if it = stop then Some (Inr s)
      else case it_deref ndebug s it of
        Inl e \<Rightarrow> Some (Inl e)
      | Inr element \<Rightarrow>
          (case new of
             [] \<Rightarrow> Some (Inl BadAlloc)
           | a # new' \<Rightarrow>
               (case append_node temp node element a s of
                  Inl e \<Rightarrow> Some (Inl e)
                | Inr s' \<Rightarrow>
                    (case it_incr ndebug s' it of
                       Inl e \<Rightarrow> Some (Inl e)
                     | Inr it' \<Rightarrow> Initialize_loop_list ndebug temp a it' stop new' s'))))"

declare Initialize_loop_list.simps [code]

definition Initialize_finish :: "addr \<Rightarrow> addr \<Rightarrow> 'a state \<Rightarrow> (error + 'a state) option" where
  "Initialize_finish l temp s =
     (case swap l temp s of Inl e \<Rightarrow> Some (Inl e) | Inr s' \<Rightarrow> destructor temp s')"

definition Initialize :: "addr \<Rightarrow> 'a list \<Rightarrow> addr \<Rightarrow> addr list \<Rightarrow> 'a::default state \<Rightarrow> (error + 'a state) option" where
  "Initialize l container temp new s =
     (case Initialize_loop temp temp container new (SingleLinkedList temp s) of
        Inl e \<Rightarrow> Some (Inl e)
      | Inr s' \<Rightarrow> Initialize_finish l temp s')"

definition Initialize_list :: "bool \<Rightarrow> addr \<Rightarrow> addr \<Rightarrow> addr \<Rightarrow> addr list \<Rightarrow> 'a::default state \<Rightarrow> (error + 'a state) option" where
  "Initialize_list ndebug l container temp new s =
     (let s0 = SingleLinkedList temp s
      in case list_begin container s0 of
           Inl e \<Rightarrow> Some (Inl e)
         | Inr first \<Rightarrow>
             (case Initialize_loop_list ndebug temp temp first list_end new s0 of
                None \<Rightarrow> None
              | Some (Inl e) \<Rightarrow> Some (Inl e)
              | Some (Inr s') \<Rightarrow> Initialize_finish l temp s'))"

text \<open>
  The other constructors, each building the object in the free storage at \<open>l\<close> (the
  default member initialisers run first), and the two assignment operators, which
  return a reference to a list object.
\<close>

definition SingleLinkedList_init :: "addr \<Rightarrow> 'a list \<Rightarrow> addr \<Rightarrow> addr list \<Rightarrow> 'a::default state \<Rightarrow> (error + 'a state) option" where
  "SingleLinkedList_init l list temp new s = Initialize l list temp new (SingleLinkedList l s)"

definition SingleLinkedList_copy :: "bool \<Rightarrow> addr \<Rightarrow> addr \<Rightarrow> addr \<Rightarrow> addr list \<Rightarrow> 'a::default state \<Rightarrow> (error + 'a state) option" where
  "SingleLinkedList_copy ndebug l other temp new s = Initialize_list ndebug l other temp new (SingleLinkedList l s)"

definition assign_copy :: "bool \<Rightarrow> addr \<Rightarrow> addr \<Rightarrow> addr \<Rightarrow> addr list \<Rightarrow> 'a::default state \<Rightarrow> (error + addr \<times> 'a state) option" where
  "assign_copy ndebug l other temp new s =
     (if l \<noteq> other
      then (case Initialize_list ndebug l other temp new s of
              None \<Rightarrow> None
            | Some (Inl e) \<Rightarrow> Some (Inl e)
            | Some (Inr s') \<Rightarrow> Some (Inr (l, s')))
      else Some (Inr (l, s)))"

definition SingleLinkedList_move :: "addr \<Rightarrow> addr \<Rightarrow> 'a::default state \<Rightarrow> error + 'a state" where
  "SingleLinkedList_move l other s = swap l other (SingleLinkedList l s)"

text \<open>
  The move assignment is, as written,
  \<^verbatim>\<open>if(this != &other) { this = &other; } return *this;\<close>
  Its only statement assigns to the pointer \<^verbatim>\<open>this\<close>; no member of either object is
  read or written. (\<^verbatim>\<open>this\<close> is not assignable in C++: a compiler rejects the body once
  the member is instantiated.) Read as written, the operator returns a reference to
  \<^verbatim>\<open>other\<close> and leaves the store as it was.
\<close>

definition assign_move :: "addr \<Rightarrow> addr \<Rightarrow> 'a state \<Rightarrow> addr \<times> 'a state" where
  "assign_move l other s = (let this = (if l \<noteq> other then other else l) in (this, s))"

section \<open>Traversal and comparison\<close>

text \<open>
  The client's loop \<^verbatim>\<open>for (it = first; it != stop; ++it) out.push_back(*it)\<close>, which is how
  the contents of a list are observed.
\<close>

partial_function (option) traverse :: "bool \<Rightarrow> 'a state \<Rightarrow> Iterator \<Rightarrow> Iterator \<Rightarrow> (error + 'a list) option" where
  "traverse ndebug s it stop =
     (if it = stop then Some (Inr [])
      else case it_deref ndebug s it of
        Inl e \<Rightarrow> Some (Inl e)
      | Inr x \<Rightarrow>
          (case it_incr ndebug s it of
             Inl e \<Rightarrow> Some (Inl e)
           | Inr it' \<Rightarrow>
               Option.bind (traverse ndebug s it' stop)
                 (\<lambda>r. case r of Inl e \<Rightarrow> Some (Inl e) | Inr xs \<Rightarrow> Some (Inr (x # xs)))))"

declare traverse.simps [code]

definition contents :: "bool \<Rightarrow> addr \<Rightarrow> 'a state \<Rightarrow> (error + 'a list) option" where
  "contents ndebug l s =
     (case list_begin l s of Inl e \<Rightarrow> Some (Inl e) | Inr first \<Rightarrow> traverse ndebug s first list_end)"

text \<open>
  Modelled from the spec: \<^verbatim>\<open>std::equal\<close> and \<^verbatim>\<open>std::lexicographical_compare\<close> (C++
  standard library, \<^verbatim>\<open><algorithm>\<close>), which the header calls and does not define. They
  are the loops that the C++ standard gives as the meaning of the four-iterator forms
  on forward iterators: element-wise equality of two ranges of equal length, and the
  lexicographic comparison by \<^verbatim>\<open><\<close>.
\<close>

partial_function (option) std_equal :: "bool \<Rightarrow> 'a state \<Rightarrow> Iterator \<Rightarrow> Iterator \<Rightarrow> Iterator \<Rightarrow> Iterator \<Rightarrow> (error + bool) option" where
  "std_equal ndebug s first1 last1 first2 last2 =
     (if first1 = last1 \<or> first2 = last2 then Some (Inr (first1 = last1 \<and> first2 = last2))
      else case it_deref ndebug s first1 of
        Inl e \<Rightarrow> Some (Inl e)
      | Inr x \<Rightarrow>
          (case it_deref ndebug s first2 of
             Inl e \<Rightarrow> Some (Inl e)
           | Inr y \<Rightarrow>
               if x \<noteq> y then Some (Inr False)
               else (case it_incr ndebug s first1 of
                       Inl e \<Rightarrow> Some (Inl e)
                     | Inr next1 \<Rightarrow>
                         (case it_incr ndebug s first2 of
                            Inl e \<Rightarrow> Some (Inl e)
                          | Inr next2 \<Rightarrow> std_equal ndebug s next1 last1 next2 last2))))"

declare std_equal.simps [code]

partial_function (option) std_lexicographical_compare :: "bool \<Rightarrow> ('a::ord) state \<Rightarrow> Iterator \<Rightarrow> Iterator \<Rightarrow> Iterator \<Rightarrow> Iterator \<Rightarrow> (error + bool) option" where
  "std_lexicographical_compare ndebug s first1 last1 first2 last2 =
     (if first1 = last1 \<or> first2 = last2 then Some (Inr (first1 = last1 \<and> first2 \<noteq> last2))
      else case it_deref ndebug s first1 of
        Inl e \<Rightarrow> Some (Inl e)
      | Inr x \<Rightarrow>
          (case it_deref ndebug s first2 of
             Inl e \<Rightarrow> Some (Inl e)
           | Inr y \<Rightarrow>
               if x < y then Some (Inr True)
               else if y < x then Some (Inr False)
               else (case it_incr ndebug s first1 of
                       Inl e \<Rightarrow> Some (Inl e)
                     | Inr next1 \<Rightarrow>
                         (case it_incr ndebug s first2 of
                            Inl e \<Rightarrow> Some (Inl e)
                          | Inr next2 \<Rightarrow> std_lexicographical_compare ndebug s next1 last1 next2 last2))))"

declare std_lexicographical_compare.simps [code]

text \<open>The free operators; \<open>left\<close> and \<open>right\<close> are the addresses of the two operands.\<close>

definition operator_eq :: "bool \<Rightarrow> addr \<Rightarrow> addr \<Rightarrow> 'a state \<Rightarrow> (error + bool) option" where
  "operator_eq ndebug left right s =
     (if left = right then Some (Inr True)
      else case GetSize left s of
        Inl e \<Rightarrow> Some (Inl e)
      | Inr m \<Rightarrow>
          (case GetSize right s of
             Inl e \<Rightarrow> Some (Inl e)
           | Inr n \<Rightarrow>
               if m \<noteq> n then Some (Inr False)
               else (case list_begin left s of
                       Inl e \<Rightarrow> Some (Inl e)
                     | Inr first1 \<Rightarrow>
                         (case list_begin right s of
                            Inl e \<Rightarrow> Some (Inl e)
                          | Inr first2 \<Rightarrow> std_equal ndebug s first1 list_end first2 list_end))))"

definition negate :: "(error + bool) option \<Rightarrow> (error + bool) option" where
  "negate r = (case r of None \<Rightarrow> None | Some (Inl e) \<Rightarrow> Some (Inl e) | Some (Inr b) \<Rightarrow> Some (Inr (\<not> b)))"

definition operator_ne :: "bool \<Rightarrow> addr \<Rightarrow> addr \<Rightarrow> 'a state \<Rightarrow> (error + bool) option" where
  "operator_ne ndebug left right s = negate (operator_eq ndebug left right s)"

definition operator_lt :: "bool \<Rightarrow> addr \<Rightarrow> addr \<Rightarrow> ('a::ord) state \<Rightarrow> (error + bool) option" where
  "operator_lt ndebug left right s =
     (case list_begin left s of
        Inl e \<Rightarrow> Some (Inl e)
      | Inr first1 \<Rightarrow>
          (case list_begin right s of
             Inl e \<Rightarrow> Some (Inl e)
           | Inr first2 \<Rightarrow> std_lexicographical_compare ndebug s first1 list_end first2 list_end))"

definition operator_le :: "bool \<Rightarrow> addr \<Rightarrow> addr \<Rightarrow> ('a::ord) state \<Rightarrow> (error + bool) option" where
  "operator_le ndebug left right s = negate (operator_lt ndebug right left s)"

definition operator_gt :: "bool \<Rightarrow> addr \<Rightarrow> addr \<Rightarrow> ('a::ord) state \<Rightarrow> (error + bool) option" where
  "operator_gt ndebug left right s = operator_lt ndebug right left s"

definition operator_ge :: "bool \<Rightarrow> addr \<Rightarrow> addr \<Rightarrow> ('a::ord) state \<Rightarrow> (error + bool) option" where
  "operator_ge ndebug left right s = negate (operator_lt ndebug left right s)"

section \<open>Abstraction\<close>

text \<open>
  \<open>path h p cs q\<close>: following \<^verbatim>\<open>next_node\<close> from the pointer \<open>p\<close> visits exactly the
  nodes \<open>cs\<close>, each given as its address and its element, and arrives at \<open>q\<close>. A chain is
  a path that ends in \<^verbatim>\<open>nullptr\<close>. \<open>list_cells s l cs\<close> says that the list object at \<open>l\<close>
  holds the nodes \<open>cs\<close> behind its sentinel and that its counter agrees with them.
\<close>

primrec path :: "(addr \<rightharpoonup> 'a Node) \<Rightarrow> ptr \<Rightarrow> (addr \<times> 'a) list \<Rightarrow> ptr \<Rightarrow> bool" where
  "path h p [] q \<longleftrightarrow> p = q"
| "path h p (c # cs) q \<longleftrightarrow>
     p = Some (fst c) \<and> (case h (fst c) of None \<Rightarrow> False | Some n \<Rightarrow> val n = snd c \<and> path h (next_node n) cs q)"

definition chain :: "(addr \<rightharpoonup> 'a Node) \<Rightarrow> ptr \<Rightarrow> (addr \<times> 'a) list \<Rightarrow> bool" where
  "chain h p cs = path h p cs None"

definition list_cells :: "'a state \<Rightarrow> addr \<Rightarrow> (addr \<times> 'a) list \<Rightarrow> bool" where
  "list_cells s l cs \<longleftrightarrow>
     (case nodes s l of None \<Rightarrow> False | Some head \<Rightarrow> chain (nodes s) (next_node head) cs) \<and>
     sizes s l = Some (of_nat (length cs))"

text \<open>
  The invariant of a whole store. \<open>rep s A\<close>: the list objects of \<open>s\<close> are the domain of
  \<open>A\<close>, each holds the nodes that \<open>A\<close> gives it, no list object lies inside a chain, and
  the chains of two list objects share no node. A store is valid when some \<open>A\<close>
  represents it.
\<close>

definition rep :: "'a state \<Rightarrow> (addr \<rightharpoonup> (addr \<times> 'a) list) \<Rightarrow> bool" where
  "rep s A \<longleftrightarrow>
     dom A = dom (sizes s) \<and>
     (\<forall>l cs. A l = Some cs \<longrightarrow> list_cells s l cs \<and> fst ` set cs \<inter> dom A = {}) \<and>
     (\<forall>l l' cs cs'. A l = Some cs \<and> A l' = Some cs' \<and> l \<noteq> l' \<longrightarrow> fst ` set cs \<inter> fst ` set cs' = {})"

definition valid :: "'a state \<Rightarrow> bool" where
  "valid s \<longleftrightarrow> (\<exists>A. rep s A)"

text \<open>
  What an operation on the list object \<open>l\<close> may do to the store: it turns the cells \<open>cs\<close>
  of \<open>l\<close> into \<open>cs'\<close>, it allocates at most the addresses \<open>F\<close>, and it touches no node
  but the sentinel of \<open>l\<close>, the cells of \<open>l\<close> and \<open>F\<close>, and no counter but the one of \<open>l\<close>.
\<close>

definition local_step :: "addr set \<Rightarrow> 'a state \<Rightarrow> addr \<Rightarrow> (addr \<times> 'a) list \<Rightarrow> 'a state \<Rightarrow> (addr \<times> 'a) list \<Rightarrow> bool" where
  "local_step F s l cs s' cs' \<longleftrightarrow>
     list_cells s' l cs' \<and> F \<inter> dom (nodes s) = {} \<and>
     fst ` set cs' \<subseteq> fst ` set cs \<union> F \<and>
     dom (nodes s') \<subseteq> dom (nodes s) \<union> F \<and>
     (\<forall>x. x \<notin> insert l (fst ` set cs \<union> F) \<longrightarrow> nodes s' x = nodes s x) \<and>
     (\<forall>l'. l' \<noteq> l \<longrightarrow> sizes s' l' = sizes s l')"

section \<open>Programs that use the lists\<close>

text \<open>
  \<open>position s l pos\<close>: the iterator \<open>pos\<close> is at the sentinel of the list \<open>l\<close> or at one of
  its nodes. These are the positions that the header allows as arguments of
  \<^verbatim>\<open>InsertAfter\<close> and \<^verbatim>\<open>EraseAfter\<close> of this list.
\<close>

definition position :: "'a state \<Rightarrow> addr \<Rightarrow> Iterator \<Rightarrow> bool" where
  "position s l pos \<longleftrightarrow> (\<exists>cs. list_cells s l cs \<and> pos \<in> Some ` set (l # map fst cs))"

text \<open>
  \<open>mutates l s s'\<close>: one call of a mutating member function of the list object \<open>l\<close> takes
  the store \<open>s\<close> to \<open>s'\<close>. The allocator hands out an unused address, a position is one
  of this list (or, for \<^verbatim>\<open>EraseAfter\<close>, the end position, which the release build
  tolerates), and the call returns.
\<close>

inductive mutates :: "addr \<Rightarrow> 'a state \<Rightarrow> 'a state \<Rightarrow> bool" for l :: addr where
  by_PushFront:
    "a \<notin> dom (nodes s) \<Longrightarrow> PushFront l v (Some a) s = Inr s' \<Longrightarrow> mutates l s s'"
| by_InsertAfter:
    "a \<notin> dom (nodes s) \<Longrightarrow> position s l pos \<Longrightarrow>
     InsertAfter ndebug l pos v (Some a) s = Inr (it, s') \<Longrightarrow> mutates l s s'"
| by_PopFront:
    "PopFront ndebug l s = Inr s' \<Longrightarrow> mutates l s s'"
| by_EraseAfter:
    "position s l pos \<or> pos = list_end \<Longrightarrow>
     EraseAfter ndebug l pos s = Inr (it, s') \<Longrightarrow> mutates l s s'"
| by_Clear:
    "Clear l s = Some (Inr s') \<Longrightarrow> mutates l s s'"

text \<open>
  Two lists are independent in a store when no sequence of mutations of one changes
  what a traversal of the other yields. \<open>deep_copy ndebug s a b cs\<close> is what is to hold
  after \<open>b\<close> was copied from the list \<open>a\<close> with the cells \<open>cs\<close>: \<open>a\<close> still has these cells,
  both lists yield their elements, \<^verbatim>\<open>a == b\<close> is true, the two chains share no node, and
  the lists are independent.
\<close>

definition independent :: "bool \<Rightarrow> 'a state \<Rightarrow> addr \<Rightarrow> addr \<Rightarrow> bool" where
  "independent ndebug s a b \<longleftrightarrow>
     (\<forall>s'. (mutates b)\<^sup>*\<^sup>* s s' \<longrightarrow> contents ndebug a s' = contents ndebug a s) \<and>
     (\<forall>s'. (mutates a)\<^sup>*\<^sup>* s s' \<longrightarrow> contents ndebug b s' = contents ndebug b s)"

definition deep_copy :: "bool \<Rightarrow> 'a state \<Rightarrow> addr \<Rightarrow> addr \<Rightarrow> (addr \<times> 'a) list \<Rightarrow> bool" where
  "deep_copy ndebug s a b cs \<longleftrightarrow>
     list_cells s a cs \<and>
     contents ndebug a s = Some (Inr (map snd cs)) \<and>
     contents ndebug b s = Some (Inr (map snd cs)) \<and>
     operator_eq ndebug a b s = Some (Inr True) \<and>
     (\<exists>cs'. list_cells s b cs' \<and> fst ` set cs \<inter> fst ` set cs' = {}) \<and>
     independent ndebug s a b \<and>
     valid s"

text \<open>
  The stores that a program can reach from the empty store by the public operations,
  used as the header asks: objects are built in unused storage, the allocator hands out
  unused addresses, the operands are live list objects. \<open>new\<close> lists the addresses of
  the allocations of one call; the rules cover the runs in which no allocation fails
  (after a failure the model has no store to go on with).
\<close>

inductive reachable :: "'a::default state \<Rightarrow> bool" where
  start: "reachable \<lparr>nodes = Map.empty, sizes = Map.empty\<rparr>"
| mutate: "reachable s \<Longrightarrow> l \<in> dom (sizes s) \<Longrightarrow> mutates l s s' \<Longrightarrow> reachable s'"
| construct: "reachable s \<Longrightarrow> l \<notin> dom (nodes s) \<Longrightarrow> reachable (SingleLinkedList l s)"
| construct_init:
    "reachable s \<Longrightarrow> l \<notin> dom (nodes s) \<Longrightarrow> temp \<notin> dom (nodes s) \<Longrightarrow> l \<noteq> temp \<Longrightarrow>
     distinct new \<Longrightarrow> set new \<inter> insert l (insert temp (dom (nodes s))) = {} \<Longrightarrow>
     length list \<le> length new \<Longrightarrow>
     SingleLinkedList_init l list temp new s = Some (Inr s') \<Longrightarrow> reachable s'"
| construct_copy:
    "reachable s \<Longrightarrow> l \<notin> dom (nodes s) \<Longrightarrow> temp \<notin> dom (nodes s) \<Longrightarrow> l \<noteq> temp \<Longrightarrow>
     distinct new \<Longrightarrow> set new \<inter> insert l (insert temp (dom (nodes s))) = {} \<Longrightarrow>
     list_cells s other cs \<Longrightarrow> length cs \<le> length new \<Longrightarrow>
     SingleLinkedList_copy ndebug l other temp new s = Some (Inr s') \<Longrightarrow> reachable s'"
| construct_move:
    "reachable s \<Longrightarrow> l \<notin> dom (nodes s) \<Longrightarrow> other \<in> dom (sizes s) \<Longrightarrow>
     SingleLinkedList_move l other s = Inr s' \<Longrightarrow> reachable s'"
| copy_assign:
    "reachable s \<Longrightarrow> l \<in> dom (sizes s) \<Longrightarrow> temp \<notin> dom (nodes s) \<Longrightarrow>
     distinct new \<Longrightarrow> set new \<inter> insert temp (dom (nodes s)) = {} \<Longrightarrow>
     list_cells s other cs \<Longrightarrow> length cs \<le> length new \<Longrightarrow>
     assign_copy ndebug l other temp new s = Some (Inr (this, s')) \<Longrightarrow> reachable s'"
| move_assign:
    "reachable s \<Longrightarrow> l \<in> dom (sizes s) \<Longrightarrow> other \<in> dom (sizes s) \<Longrightarrow>
     assign_move l other s = (this, s') \<Longrightarrow> reachable s'"
| swap:
    "reachable s \<Longrightarrow> l \<in> dom (sizes s) \<Longrightarrow> other \<in> dom (sizes s) \<Longrightarrow>
     swap l other s = Inr s' \<Longrightarrow> reachable s'"
| destroy:
    "reachable s \<Longrightarrow> l \<in> dom (sizes s) \<Longrightarrow> destructor l s = Some (Inr s') \<Longrightarrow> reachable s'"

section \<open>Example stores\<close>

text \<open>
  The store before anything is built, and a store with one list object at address 100
  that holds 1, 2, 3 in the nodes at the addresses 1, 2, 3.
\<close>

definition empty_state :: "int state" where
  "empty_state = \<lparr>nodes = Map.empty, sizes = Map.empty\<rparr>"

definition state_123 :: "int state" where
  "state_123 =
     \<lparr>nodes = [100 \<mapsto> \<lparr>val = 0, next_node = Some 1\<rparr>,
               1 \<mapsto> \<lparr>val = 1, next_node = Some 2\<rparr>,
               2 \<mapsto> \<lparr>val = 2, next_node = Some 3\<rparr>,
               3 \<mapsto> \<lparr>val = 3, next_node = None\<rparr>],
      sizes = [100 \<mapsto> 3]\<rparr>"

text \<open>
  The same store with a second list object at address 200 that holds 9 in the node at
  address 4.
\<close>

definition state_two :: "int state" where
  "state_two =
     \<lparr>nodes = [100 \<mapsto> \<lparr>val = 0, next_node = Some 1\<rparr>,
               1 \<mapsto> \<lparr>val = 1, next_node = Some 2\<rparr>,
               2 \<mapsto> \<lparr>val = 2, next_node = Some 3\<rparr>,
               3 \<mapsto> \<lparr>val = 3, next_node = None\<rparr>,
               200 \<mapsto> \<lparr>val = 0, next_node = Some 4\<rparr>,
               4 \<mapsto> \<lparr>val = 9, next_node = None\<rparr>],
      sizes = [100 \<mapsto> 3, 200 \<mapsto> 1]\<rparr>"

text \<open>
  A store with six list objects: \<open>[1, 2, 3]\<close> at 100, \<open>[1, 2, 4]\<close> at 200, \<open>[1, 2]\<close> at 300,
  the empty list at 400, \<open>[1]\<close> at 500 and a second \<open>[1, 2, 3]\<close> at 600.
\<close>

definition state_cmp :: "int state" where
  "state_cmp =
     \<lparr>nodes = [100 \<mapsto> \<lparr>val = 0, next_node = Some 1\<rparr>,
               1 \<mapsto> \<lparr>val = 1, next_node = Some 2\<rparr>,
               2 \<mapsto> \<lparr>val = 2, next_node = Some 3\<rparr>,
               3 \<mapsto> \<lparr>val = 3, next_node = None\<rparr>,
               200 \<mapsto> \<lparr>val = 0, next_node = Some 4\<rparr>,
               4 \<mapsto> \<lparr>val = 1, next_node = Some 5\<rparr>,
               5 \<mapsto> \<lparr>val = 2, next_node = Some 6\<rparr>,
               6 \<mapsto> \<lparr>val = 4, next_node = None\<rparr>,
               300 \<mapsto> \<lparr>val = 0, next_node = Some 7\<rparr>,
               7 \<mapsto> \<lparr>val = 1, next_node = Some 8\<rparr>,
               8 \<mapsto> \<lparr>val = 2, next_node = None\<rparr>,
               400 \<mapsto> \<lparr>val = 0, next_node = None\<rparr>,
               500 \<mapsto> \<lparr>val = 0, next_node = Some 9\<rparr>,
               9 \<mapsto> \<lparr>val = 1, next_node = None\<rparr>,
               600 \<mapsto> \<lparr>val = 0, next_node = Some 10\<rparr>,
               10 \<mapsto> \<lparr>val = 1, next_node = Some 11\<rparr>,
               11 \<mapsto> \<lparr>val = 2, next_node = Some 12\<rparr>,
               12 \<mapsto> \<lparr>val = 3, next_node = None\<rparr>],
      sizes = [100 \<mapsto> 3, 200 \<mapsto> 3, 300 \<mapsto> 2, 400 \<mapsto> 0, 500 \<mapsto> 1, 600 \<mapsto> 3]\<rparr>"

text \<open>
  A program that builds one list at the address \<open>2^40\<close> and pushes 0 onto it \<open>n\<close> times,
  the allocator handing out the addresses 1, 2, 3 and so on. \<open>pushes n\<close> is the store
  after the \<open>n\<close>-th push (a push that fails would leave the store as it was), and
  \<open>pushed n\<close> the nodes that the list then holds.
\<close>

definition big_list :: addr where
  "big_list = 1099511627776"

fun pushes :: "nat \<Rightarrow> int state" where
  "pushes 0 = SingleLinkedList big_list \<lparr>nodes = Map.empty, sizes = Map.empty\<rparr>"
| "pushes (Suc k) =
     (case PushFront big_list 0 (Some (word_of_nat (Suc k))) (pushes k) of
        Inr s \<Rightarrow> s
      | Inl e \<Rightarrow> pushes k)"

definition pushed :: "nat \<Rightarrow> (addr \<times> int) list" where
  "pushed n = map (\<lambda>k. (word_of_nat k, 0)) (rev [1..<Suc n])"

section \<open>Chains and the invariant\<close>

lemma path_append: "path h p (cs @ ds) q \<longleftrightarrow> (\<exists>r. path h p cs r \<and> path h r ds q)"
  by (induction cs arbitrary: p) (auto split: option.splits)

lemma path_frame:
  "(\<And>a. a \<in> fst ` set cs \<Longrightarrow> h' a = h a) \<Longrightarrow> path h' p cs q = path h p cs q"
  by (induction cs arbitrary: p) (auto split: option.splits)

lemma chain_unique: "chain h p cs \<Longrightarrow> chain h p ds \<Longrightarrow> cs = ds"
  unfolding chain_def
proof (induction cs arbitrary: p ds)
  case Nil
  then show ?case by (cases ds) auto
next
  case (Cons c cs)
  then show ?case by (cases ds) (auto split: option.splits simp: prod_eq_iff)
qed

lemma chain_head_notin:
  assumes "chain h p (c # cs)"
  shows "fst c \<notin> fst ` set cs"
proof
  assume "fst c \<in> fst ` set cs"
  then obtain d where d: "d \<in> set cs" "fst d = fst c" by auto
  then obtain us vs where cs: "cs = us @ d # vs" by (meson split_list)
  from assms obtain n where n: "h (fst c) = Some n" "val n = snd c" "chain h (next_node n) cs"
    by (auto simp: chain_def split: option.splits)
  from n(3) cs have "chain h (next_node n) (us @ d # vs)" by simp
  then have "\<exists>r. path h (next_node n) us r \<and> path h r (d # vs) None"
    unfolding chain_def  path_append by simp
  then have "chain h (next_node n) vs"
    using d n by (auto simp: chain_def split: option.splits)
  with n(3) have "cs = vs" by (rule chain_unique)
  with cs show False by simp
qed

lemma chain_distinct: "chain h p cs \<Longrightarrow> distinct (map fst cs)"
proof (induction cs arbitrary: p)
  case Nil
  then show ?case by simp
next
  case (Cons c cs)
  from Cons.prems have "fst c \<notin> fst ` set cs" by (rule chain_head_notin)
  moreover from Cons.prems obtain n where "h (fst c) = Some n" "chain h (next_node n) cs"
    by (auto simp: chain_def split: option.splits)
  ultimately show ?case using Cons.IH by simp
qed

lemma chain_allocated: "chain h p cs \<Longrightarrow> fst ` set cs \<subseteq> dom h"
  unfolding chain_def
  by (induction cs arbitrary: p) (auto split: option.splits)

lemma distinct_addr_bound:
  fixes as :: "addr list"
  assumes "distinct as" "l \<notin> set as"
  shows "length as < 2 ^ 64"
proof -
  have "card (set as) \<le> card (UNIV - {l})"
    using assms(2) by (intro card_mono) auto
  also have "\<dots> = 2 ^ 64 - 1" by (simp add: card_Diff_singleton card_word)
  finally show ?thesis using assms(1) by (simp add: distinct_card)
qed

lemma list_cells_notin: "list_cells s l cs \<Longrightarrow> l \<notin> fst ` set cs"
proof -
  assume a: "list_cells s l cs"
  then obtain head where h: "nodes s l = Some head" "chain (nodes s) (next_node head) cs"
    by (auto simp: list_cells_def split: option.splits)
  then have "chain (nodes s) (Some l) ((l, val head) # cs)"
    by (simp add: chain_def)
  from chain_head_notin[OF this] show ?thesis by simp
qed

lemma list_cells_length: "list_cells s l cs \<Longrightarrow> length cs < 2 ^ 64"
proof -
  assume a: "list_cells s l cs"
  then obtain head where h: "nodes s l = Some head" "chain (nodes s) (next_node head) cs"
    by (auto simp: list_cells_def split: option.splits)
  have "distinct (map fst cs)" using h(2) by (rule chain_distinct)
  moreover have "l \<notin> set (map fst cs)" using list_cells_notin[OF a] by simp
  ultimately have "length (map fst cs) < 2 ^ 64" by (rule distinct_addr_bound)
  then show ?thesis by simp
qed

lemma list_cells_size: "list_cells s l cs \<Longrightarrow> \<exists>n. sizes s l = Some n \<and> unat n = length cs"
  using list_cells_length[of s l cs]
  by (auto simp: list_cells_def unat_of_nat split: option.splits)

lemma narrow_small: "k \<le> 2147483647 \<Longrightarrow> sint (word_of_nat k :: 32 word) = int k"
  by (simp add: signed_of_nat signed_take_bit_int_eq_self)

lemma ucast_of_nat_32: "(ucast (word_of_nat k :: 64 word) :: 32 word) = word_of_nat k"
  by (simp add: word_eq_iff_unsigned[where 'a=nat] unsigned_ucast_eq unsigned_of_nat take_bit_take_bit)

lemma sint_32_less: "sint (w :: 32 word) \<le> 2147483647"
  using sint_lt[of w] by simp

lemma list_cells_allocated: "list_cells s l cs \<Longrightarrow> insert l (fst ` set cs) \<subseteq> dom (nodes s)"
  using chain_allocated by (fastforce simp: list_cells_def split: option.splits)

lemma list_cells_frame:
  assumes "list_cells s l cs"
    and "\<And>x. x \<in> insert l (fst ` set cs) \<Longrightarrow> nodes s' x = nodes s x"
    and "sizes s' l = sizes s l"
  shows "list_cells s' l cs"
proof -
  from assms(1) obtain head where h: "nodes s l = Some head" "chain (nodes s) (next_node head) cs"
    and sz: "sizes s l = Some (of_nat (length cs))"
    by (auto simp: list_cells_def split: option.splits)
  have "nodes s' l = Some head" using assms(2) h(1) by simp
  moreover have "chain (nodes s') (next_node head) cs"
    using h(2) assms(2) by (simp add: chain_def path_frame[of cs "nodes s'" "nodes s"])
  ultimately show ?thesis using sz assms(3) by (simp add: list_cells_def)
qed

lemma list_cells_unique: "list_cells s l cs \<Longrightarrow> list_cells s l ds \<Longrightarrow> cs = ds"
  by (auto simp: list_cells_def split: option.splits dest: chain_unique)

lemma rep_dom_nodes: "rep s A \<Longrightarrow> dom A \<subseteq> dom (nodes s)"
  using list_cells_allocated by (fastforce simp: rep_def)

lemma rep_cells: "rep s A \<Longrightarrow> A l = Some cs \<Longrightarrow> list_cells s l cs"
  by (simp add: rep_def)

lemma rep_cells_dom: "rep s A \<Longrightarrow> A l = Some cs \<Longrightarrow> fst ` set cs \<inter> dom A = {}"
  unfolding rep_def by blast

lemma rep_disjoint:
  assumes "rep s A" "A l = Some cs" "A l' = Some cs'" "l \<noteq> l'"
  shows "fst ` set cs \<inter> fst ` set cs' = {}"
proof -
  have "\<forall>l l' cs cs'. A l = Some cs \<and> A l' = Some cs' \<and> l \<noteq> l' \<longrightarrow> fst ` set cs \<inter> fst ` set cs' = {}"
    using assms(1) unfolding rep_def by simp
  from this[rule_format, of l cs l' cs'] assms(2-4) show ?thesis by simp
qed

lemma rep_dom: "rep s A \<Longrightarrow> dom A = dom (sizes s)"
  unfolding rep_def by simp

lemma rep_lookup: "rep s A \<Longrightarrow> sizes s l = Some n \<Longrightarrow> \<exists>cs. A l = Some cs \<and> list_cells s l cs"
proof -
  assume r: "rep s A" and n: "sizes s l = Some n"
  then have "l \<in> dom A" by (auto simp: rep_def)
  then obtain cs where "A l = Some cs" by auto
  then show ?thesis using r by (auto simp: rep_def)
qed

lemma rep_update:
  assumes r: "rep s A" and l: "A l = Some cs" and st: "local_step F s l cs s' cs'"
  shows "rep s' (A(l \<mapsto> cs'))"
proof -
  from st have c': "list_cells s' l cs'" and F: "F \<inter> dom (nodes s) = {}"
    and sub: "fst ` set cs' \<subseteq> fst ` set cs \<union> F"
    and fr: "\<And>x. x \<notin> insert l (fst ` set cs \<union> F) \<Longrightarrow> nodes s' x = nodes s x"
    and sz: "\<And>l'. l' \<noteq> l \<Longrightarrow> sizes s' l' = sizes s l'"
    by (auto simp: local_step_def)
  have domA: "dom A \<subseteq> dom (nodes s)" using r by (rule rep_dom_nodes)
  have FA: "F \<inter> dom A = {}" using F domA by blast
  have csA: "fst ` set cs \<inter> dom A = {}" using r l by (rule rep_cells_dom)
  have other: "list_cells s' l' ds \<and> fst ` set ds \<inter> fst ` set cs' = {}"
    if "l' \<noteq> l" "A l' = Some ds" for l' ds
  proof -
    have d: "list_cells s l' ds" using r that(2) by (rule rep_cells)
    have dA: "fst ` set ds \<inter> dom A = {}" using r that(2) by (rule rep_cells_dom)
    have dc: "fst ` set ds \<inter> fst ` set cs = {}" using rep_disjoint[OF r that(2) l that(1)] .
    have dF: "fst ` set ds \<inter> F = {}" using list_cells_allocated[OF d] F by auto
    have "l' \<notin> fst ` set cs" using csA that(2) by auto
    moreover have "l' \<notin> F" using FA that(2) by auto
    moreover have "l \<notin> fst ` set ds" using dA l by auto
    ultimately have "\<And>x. x \<in> insert l' (fst ` set ds) \<Longrightarrow> nodes s' x = nodes s x"
      using that(1) dc dF by (intro fr) auto
    then have "list_cells s' l' ds" using d sz[OF that(1)] by (intro list_cells_frame[of s l' ds s']) auto
    moreover have "fst ` set ds \<inter> fst ` set cs' = {}" using sub dc dF by blast
    ultimately show ?thesis by simp
  qed
  have n': "sizes s' l \<noteq> None" using c' by (auto simp: list_cells_def)
  have n: "sizes s l \<noteq> None" using rep_cells[OF r l] by (auto simp: list_cells_def)
  have "dom (sizes s') = dom (sizes s)"
  proof (rule set_eqI)
    fix x
    show "x \<in> dom (sizes s') \<longleftrightarrow> x \<in> dom (sizes s)"
      using n n' sz[of x] by (cases "x = l") (simp_all add: domIff)
  qed
  then have 1: "dom (A(l \<mapsto> cs')) = dom (sizes s')" using rep_dom[OF r] l by auto
  have 2: "list_cells s' k ds \<and> fst ` set ds \<inter> dom (A(l \<mapsto> cs')) = {}"
    if "(A(l \<mapsto> cs')) k = Some ds" for k ds
  proof (cases "k = l")
    case True
    then have "ds = cs'" using that by simp
    moreover have "fst ` set cs' \<inter> dom A = {}" using sub csA FA by blast
    ultimately show ?thesis using c' True l by auto
  next
    case False
    then have "A k = Some ds" using that by simp
    moreover have "fst ` set ds \<inter> dom A = {}" using r \<open>A k = Some ds\<close> by (rule rep_cells_dom)
    ultimately show ?thesis using other[OF False] l by auto
  qed
  have 3: "fst ` set ds \<inter> fst ` set es = {}"
    if h: "(A(l \<mapsto> cs')) k = Some ds" "(A(l \<mapsto> cs')) m = Some es" "k \<noteq> m" for k m ds es
  proof -
    consider "k = l" "m \<noteq> l" | "k \<noteq> l" "m = l" | "k \<noteq> l" "m \<noteq> l" using h(3) by blast
    then show ?thesis
    proof cases
      case 1
      then show ?thesis using h other[of m es] by auto
    next
      case 2
      then show ?thesis using h other[of k ds] by auto
    next
      case 3
      then show ?thesis using h rep_disjoint[OF r, of k ds m es] by simp
    qed
  qed
  have all2: "\<forall>k ds. (A(l \<mapsto> cs')) k = Some ds \<longrightarrow>
      list_cells s' k ds \<and> fst ` set ds \<inter> dom (A(l \<mapsto> cs')) = {}"
    by (intro allI impI) (rule 2)
  have all3: "\<forall>k m ds es. (A(l \<mapsto> cs')) k = Some ds \<and> (A(l \<mapsto> cs')) m = Some es \<and> k \<noteq> m \<longrightarrow>
      fst ` set ds \<inter> fst ` set es = {}"
    by (intro allI impI, elim conjE) (rule 3)
  show ?thesis unfolding rep_def by (intro conjI 1 all2 all3)
qed

lemma set_next_apply:
  "set_next h p q x = (if x = p then map_option (\<lambda>n. n\<lparr>next_node := q\<rparr>) (h p) else h x)"
  by (simp add: set_next_def split: option.splits)

lemma chain_Cons:
  "chain h p (c # cs) \<longleftrightarrow> (\<exists>n. p = Some (fst c) \<and> h (fst c) = Some n \<and> val n = snd c \<and> chain h (next_node n) cs)"
  by (auto simp: chain_def split: option.splits)

lemma chain_Nil: "chain h p [] \<longleftrightarrow> p = None"
  by (simp add: chain_def)

lemma chain_frame:
  "(\<And>a. a \<in> fst ` set cs \<Longrightarrow> h' a = h a) \<Longrightarrow> chain h' p cs = chain h p cs"
  unfolding chain_def by (rule path_frame)

lemma list_cells_full:
  "list_cells s l cs \<longleftrightarrow>
     (\<exists>d. chain (nodes s) (Some l) ((l, d) # cs)) \<and> sizes s l = Some (of_nat (length cs))"
  by (auto simp: list_cells_def chain_Cons split: option.splits)

lemma chain_split:
  assumes "chain h p (pre @ c # post)"
  shows "\<exists>n. path h p pre (Some (fst c)) \<and> h (fst c) = Some n \<and> val n = snd c \<and>
             chain h (next_node n) post \<and>
             fst c \<notin> fst ` set pre \<and> fst c \<notin> fst ` set post \<and>
             fst ` set pre \<inter> fst ` set post = {}"
proof -
  from assms obtain r where r: "path h p pre r" "path h r (c # post) None"
    unfolding chain_def path_append by blast
  from r(2) obtain n where n: "r = Some (fst c)" "h (fst c) = Some n" "val n = snd c"
      "chain h (next_node n) post"
    by (auto simp: chain_def split: option.splits)
  have "distinct (map fst (pre @ c # post))" using assms by (rule chain_distinct)
  then have "fst c \<notin> fst ` set pre" "fst c \<notin> fst ` set post"
      "fst ` set pre \<inter> fst ` set post = {}"
    by auto
  with r(1) n show ?thesis by blast
qed

lemma chain_join:
  "path h p pre (Some (fst c)) \<Longrightarrow> chain h (Some (fst c)) (c # post) \<Longrightarrow> chain h p (pre @ c # post)"
  unfolding chain_def path_append by blast

lemma path_insert:
  assumes ch: "chain h p (pre @ c # post)" and a: "a \<notin> dom h" and n: "h (fst c) = Some n"
  shows "chain (set_next (h(a \<mapsto> \<lparr>val = v, next_node = next_node n\<rparr>)) (fst c) (Some a)) p
           (pre @ c # (a, v) # post)"
proof -
  let ?h = "set_next (h(a \<mapsto> \<lparr>val = v, next_node = next_node n\<rparr>)) (fst c) (Some a)"
  from chain_split[OF ch] n
  have pre: "path h p pre (Some (fst c))" and vn: "val n = snd c"
    and post: "chain h (next_node n) post"
    and d: "fst c \<notin> fst ` set pre" "fst c \<notin> fst ` set post"
    by auto
  have al: "fst ` set (pre @ c # post) \<subseteq> dom h" using ch by (rule chain_allocated)
  have ac: "a \<noteq> fst c" using a n by auto
  have apre: "a \<notin> fst ` set pre" and apost: "a \<notin> fst ` set post" using al a by auto
  have same: "?h x = h x" if "x \<noteq> a" "x \<noteq> fst c" for x
    using that by (simp add: set_next_apply)
  have fpre: "?h x = h x" if "x \<in> fst ` set pre" for x
    using that apre d(1) by (intro same) blast+
  have fpost: "?h x = h x" if "x \<in> fst ` set post" for x
    using that apost d(2) by (intro same) blast+
  have 1: "path ?h p pre (Some (fst c))"
    using pre path_frame[of pre ?h h, OF fpre] by simp
  have 2: "chain ?h (next_node n) post"
    using post chain_frame[of post ?h h, OF fpost] by simp
  have 3: "?h (fst c) = Some (n\<lparr>next_node := Some a\<rparr>)"
    using n ac by (simp add: set_next_apply)
  have 4: "?h a = Some \<lparr>val = v, next_node = next_node n\<rparr>"
    using ac by (simp add: set_next_apply)
  have "chain ?h (Some (fst c)) (c # (a, v) # post)"
    using 2 3 4 vn by (simp add: chain_Cons)
  with 1 show ?thesis by (rule chain_join)
qed

lemma path_erase:
  assumes ch: "chain h p (pre @ c # e # post)"
  shows "\<exists>n en. h (fst c) = Some n \<and> next_node n = Some (fst e) \<and> h (fst e) = Some en \<and>
           fst e \<noteq> fst c \<and>
           next_node en = (case post of [] \<Rightarrow> None | d # _ \<Rightarrow> Some (fst d)) \<and>
           chain ((set_next h (fst c) (next_node en))(fst e := None)) p (pre @ c # post)"
proof -
  from chain_split[OF ch] obtain n where
    pre: "path h p pre (Some (fst c))" and n: "h (fst c) = Some n" "val n = snd c"
    and rest: "chain h (next_node n) (e # post)"
    and d: "fst c \<notin> fst ` set pre" "fst c \<notin> fst ` set (e # post)"
        "fst ` set pre \<inter> fst ` set (e # post) = {}"
    by blast
  from rest obtain en where en: "next_node n = Some (fst e)" "h (fst e) = Some en"
      "chain h (next_node en) post"
    by (auto simp: chain_Cons)
  have epost: "fst e \<notin> fst ` set post" using rest by (rule chain_head_notin)
  let ?h = "(set_next h (fst c) (next_node en))(fst e := None)"
  have ec: "fst e \<noteq> fst c" using d(2) by auto
  have same: "?h x = h x" if "x \<noteq> fst e" "x \<noteq> fst c" for x
    using that by (simp add: set_next_apply)
  have epre: "fst e \<notin> fst ` set pre" using d(3) by auto
  have cpost: "fst c \<notin> fst ` set post" using d(2) by auto
  have fpre: "?h x = h x" if "x \<in> fst ` set pre" for x
    using that d(1) epre by (intro same) blast+
  have fpost: "?h x = h x" if "x \<in> fst ` set post" for x
    using that cpost epost by (intro same) blast+
  have 1: "path ?h p pre (Some (fst c))"
    using pre path_frame[of pre ?h h, OF fpre] by simp
  have 2: "chain ?h (next_node en) post"
    using en(3) chain_frame[of post ?h h, OF fpost] by simp
  have 3: "?h (fst c) = Some (n\<lparr>next_node := next_node en\<rparr>)"
    using n ec by (simp add: set_next_apply)
  have "chain ?h (Some (fst c)) (c # post)"
    using 2 3 n(2) by (simp add: chain_Cons)
  with 1 have "chain ?h p (pre @ c # post)" by (rule chain_join)
  moreover have "next_node en = (case post of [] \<Rightarrow> None | d # _ \<Rightarrow> Some (fst d))"
    using en(3) by (cases post) (auto simp: chain_Cons chain_Nil)
  ultimately show ?thesis using n en ec by blast
qed

lemma full_nth:
  assumes "k \<le> length cs"
  shows "((l, d) # cs) = take k ((l, d) # cs) @ (((l, d) # cs) ! k) # drop k cs"
    and "fst (((l, d) # cs) ! k) = (l # map fst cs) ! k"
proof -
  have "k < length ((l, d) # cs)" using assms by simp
  from id_take_nth_drop[OF this] show "((l, d) # cs) = take k ((l, d) # cs) @ (((l, d) # cs) ! k) # drop k cs"
    by simp
  show "fst (((l, d) # cs) ! k) = (l # map fst cs) ! k"
    using assms by (cases k) simp_all
qed

lemma take_full: "k \<le> length cs \<Longrightarrow> take k (x # cs) @ [(x # cs) ! k] = x # take k cs"
  by (metis Suc_le_lessD le_imp_less_Suc length_Cons take_Suc_Cons take_Suc_conv_app_nth)

lemma InsertAfter_step:
  assumes lc: "list_cells s l cs" and k: "k \<le> length cs" and a: "a \<notin> dom (nodes s)"
  shows "\<exists>s'. InsertAfter ndebug l (Some ((l # map fst cs) ! k)) v (Some a) s = Inr (Some a, s') \<and>
              local_step {a} s l cs s' (take k cs @ (a, v) # drop k cs)"
proof -
  from lc obtain d where full: "chain (nodes s) (Some l) ((l, d) # cs)"
    and sz: "sizes s l = Some (of_nat (length cs))"
    by (auto simp: list_cells_full)
  let ?full = "(l, d) # cs"
  let ?c = "?full ! k"
  let ?p = "(l # map fst cs) ! k"
  have split: "?full = take k ?full @ ?c # drop k cs" and p: "fst ?c = ?p"
    using full_nth[OF k] by auto
  have full': "chain (nodes s) (Some l) (take k ?full @ ?c # drop k cs)"
    using full split by simp
  from chain_split[OF full'] obtain pn where pn: "nodes s (fst ?c) = Some pn" by blast
  let ?h = "set_next ((nodes s)(a \<mapsto> \<lparr>val = v, next_node = next_node pn\<rparr>)) ?p (Some a)"
  let ?s = "s\<lparr>nodes := ?h, sizes := (sizes s)(l \<mapsto> of_nat (length cs) + 1)\<rparr>"
  have res: "InsertAfter ndebug l (Some ?p) v (Some a) s = Inr (Some a, ?s)"
    using pn p sz by (simp add: InsertAfter_def it_bool_def)
  have "chain ?h (Some l) (take k ?full @ ?c # (a, v) # drop k cs)"
    using path_insert[OF full' a pn] p by simp
  then have "chain ?h (Some l) ((take k ?full @ [?c]) @ (a, v) # drop k cs)" by simp
  then have new: "chain ?h (Some l) ((l, d) # (take k cs @ (a, v) # drop k cs))"
    unfolding take_full[OF k] by simp
  have len: "length (take k cs @ (a, v) # drop k cs) = Suc (length cs)" using k by simp
  have c1: "list_cells ?s l (take k cs @ (a, v) # drop k cs)"
    unfolding list_cells_full using new len by auto
  have pin: "?p \<in> insert l (fst ` set cs)"
    using k by (cases k) (auto simp: nth_Cons')
  have c2: "fst ` set (take k cs @ (a, v) # drop k cs) \<subseteq> fst ` set cs \<union> {a}"
    using set_take_subset[of k cs] set_drop_subset[of k cs] by auto
  have c3: "dom ?h \<subseteq> dom (nodes s) \<union> {a}"
    by (auto simp: set_next_apply split: if_splits)
  have c4: "\<forall>x. x \<notin> insert l (fst ` set cs \<union> {a}) \<longrightarrow> ?h x = nodes s x"
    using pin by (auto simp: set_next_apply)
  have "local_step {a} s l cs ?s (take k cs @ (a, v) # drop k cs)"
    unfolding local_step_def using c1 c2 c3 c4 a by simp
  with res show ?thesis by blast
qed

lemma EraseAfter_step:
  assumes lc: "list_cells s l cs" and k: "k < length cs"
  shows "\<exists>s'. EraseAfter ndebug l (Some ((l # map fst cs) ! k)) s =
               Inr (if Suc k < length cs then Some (fst (cs ! Suc k)) else None, s') \<and>
              local_step {} s l cs s' (take k cs @ drop (Suc k) cs) \<and>
              nodes s' (fst (cs ! k)) = None"
proof -
  from lc obtain d where full: "chain (nodes s) (Some l) ((l, d) # cs)"
    and sz: "sizes s l = Some (of_nat (length cs))"
    by (auto simp: list_cells_full)
  let ?full = "(l, d) # cs"
  let ?c = "?full ! k"
  let ?e = "cs ! k"
  let ?post = "drop (Suc k) cs"
  let ?p = "(l # map fst cs) ! k"
  have k': "k \<le> length cs" using k by simp
  have split: "?full = take k ?full @ ?c # drop k cs" and p: "fst ?c = ?p"
    using full_nth[OF k'] by auto
  have dk: "drop k cs = ?e # ?post" using k by (simp add: Cons_nth_drop_Suc)
  have full': "chain (nodes s) (Some l) (take k ?full @ ?c # ?e # ?post)"
    using full split dk by simp
  from path_erase[OF full'] obtain pn en where
    pn: "nodes s (fst ?c) = Some pn" "next_node pn = Some (fst ?e)"
    and en: "nodes s (fst ?e) = Some en" "fst ?e \<noteq> fst ?c"
      "next_node en = (case ?post of [] \<Rightarrow> None | d # _ \<Rightarrow> Some (fst d))"
    and new0: "chain ((set_next (nodes s) (fst ?c) (next_node en))(fst ?e := None)) (Some l)
                 (take k ?full @ ?c # ?post)"
    by blast
  let ?h = "(set_next (nodes s) ?p (next_node en))(fst ?e := None)"
  let ?s = "s\<lparr>nodes := ?h, sizes := (sizes s)(l \<mapsto> of_nat (length cs) - 1)\<rparr>"
  have hp: "?h ?p = Some (pn\<lparr>next_node := next_node en\<rparr>)"
    using pn en(2) p by (simp add: set_next_apply)
  have it: "next_node en = (if Suc k < length cs then Some (fst (cs ! Suc k)) else None)"
  proof (cases "Suc k < length cs")
    case True
    then have "?post = cs ! Suc k # drop (Suc (Suc k)) cs" by (simp add: Cons_nth_drop_Suc)
    then show ?thesis using en(3) True by simp
  next
    case False
    then show ?thesis using en(3) by simp
  qed
  have res: "EraseAfter ndebug l (Some ?p) s =
      Inr (if Suc k < length cs then Some (fst (cs ! Suc k)) else None, ?s)"
    using pn en(1) p sz hp it by (simp add: EraseAfter_def Let_def)
  have "chain ?h (Some l) ((take k ?full @ [?c]) @ ?post)"
    using new0 p by simp
  then have new: "chain ?h (Some l) ((l, d) # (take k cs @ ?post))"
    unfolding take_full[OF k'] by simp
  have len: "length (take k cs @ ?post) = length cs - 1" using k by simp
  have wn: "(word_of_nat (length cs - 1) :: 64 word) = word_of_nat (length cs) - 1"
    using k by (cases "length cs") simp_all
  have c1: "list_cells ?s l (take k cs @ ?post)"
    unfolding list_cells_full using new len wn by auto
  have pin: "?p \<in> insert l (fst ` set cs)"
    using k by (cases k) (auto simp: nth_Cons')
  have ein: "fst ?e \<in> fst ` set cs" using k by simp
  have c2: "fst ` set (take k cs @ ?post) \<subseteq> fst ` set cs \<union> {}"
    using set_take_subset[of k cs] set_drop_subset[of "Suc k" cs] by auto
  have c3: "dom ?h \<subseteq> dom (nodes s) \<union> {}"
    by (auto simp: set_next_apply split: if_splits)
  have c4: "\<forall>x. x \<notin> insert l (fst ` set cs \<union> {}) \<longrightarrow> ?h x = nodes s x"
    using pin ein by (auto simp: set_next_apply)
  have "local_step {} s l cs ?s (take k cs @ ?post)"
    unfolding local_step_def using c1 c2 c3 c4 by simp
  moreover have "nodes ?s (fst ?e) = None" by simp
  ultimately show ?thesis using res by blast
qed

lemma InsertAfter_before_begin:
  "InsertAfter ndebug l (before_begin l) v new s =
     (case PushFront l v new s of Inl e \<Rightarrow> Inl e | Inr s' \<Rightarrow> Inr (new, s'))"
  by (simp add: InsertAfter_def PushFront_def before_begin_def it_bool_def split: option.splits)

lemma PushFront_step:
  assumes lc: "list_cells s l cs" and a: "a \<notin> dom (nodes s)"
  shows "\<exists>s'. PushFront l v (Some a) s = Inr s' \<and> local_step {a} s l cs s' ((a, v) # cs)"
proof -
  from InsertAfter_step[OF lc _ a, of 0 True v]
  obtain s' where "InsertAfter True l (Some l) v (Some a) s = Inr (Some a, s')"
    and st: "local_step {a} s l cs s' ((a, v) # cs)"
    by auto
  then have "PushFront l v (Some a) s = Inr s'"
    using InsertAfter_before_begin[of True l v "Some a" s]
    by (simp add: before_begin_def split: sum.splits)
  with st show ?thesis by blast
qed

lemma PopFront_EraseAfter:
  assumes "nodes s l = Some head" "next_node head \<noteq> Some l"
  shows "PopFront ndebug l s =
     (case EraseAfter ndebug l (before_begin l) s of Inl e \<Rightarrow> Inl e | Inr (it, s') \<Rightarrow> Inr s')"
  using assms
  by (auto simp: PopFront_def EraseAfter_def IsEmpty_def before_begin_def Let_def set_next_apply
      split: option.splits)

lemma PopFront_step:
  assumes lc: "list_cells s l (c # cs)"
  shows "\<exists>s'. PopFront ndebug l s = Inr s' \<and> local_step {} s l (c # cs) s' cs"
proof -
  from EraseAfter_step[OF lc, of 0 ndebug]
  obtain it s' where e: "EraseAfter ndebug l (Some l) s = Inr (it, s')"
    and st: "local_step {} s l (c # cs) s' cs"
    by auto
  from lc obtain head where h: "nodes s l = Some head" "next_node head = Some (fst c)"
    by (auto simp: list_cells_def chain_Cons split: option.splits)
  have "l \<noteq> fst c" using list_cells_notin[OF lc] by auto
  then have "next_node head \<noteq> Some l" using h by simp
  from PopFront_EraseAfter[OF h(1) this, of ndebug] e
  have "PopFront ndebug l s = Inr s'" by (simp add: before_begin_def)
  with st show ?thesis by blast
qed

lemma PopFront_empty:
  assumes lc: "list_cells s l []"
  shows "PopFront True l s = Inr s" "PopFront False l s = Inl AssertionFailed"
  using lc by (auto simp: list_cells_def chain_Nil PopFront_def IsEmpty_def split: option.splits)

lemma Clear_loop_chain:
  assumes "h l = Some head" "chain h (next_node head) cs" "l \<notin> fst ` set cs"
  shows "\<exists>h'. Clear_loop l h = Some (Inr h') \<and> h' l = Some (head\<lparr>next_node := None\<rparr>) \<and>
           (\<forall>x. x \<noteq> l \<longrightarrow> h' x = (if x \<in> fst ` set cs then None else h x))"
  using assms
proof (induction cs arbitrary: h head)
  case Nil
  then show ?case by (subst Clear_loop.simps) (simp add: chain_Nil)
next
  case (Cons c cs)
  from Cons.prems(2) obtain fnode where f: "next_node head = Some (fst c)" "h (fst c) = Some fnode"
      "chain h (next_node fnode) cs"
    by (auto simp: chain_Cons)
  have cl: "fst c \<noteq> l" using Cons.prems(3) by auto
  have cn: "fst c \<notin> fst ` set cs" using Cons.prems(2) by (rule chain_head_notin)
  have ln: "l \<notin> fst ` set cs" using Cons.prems(3) by auto
  let ?h = "(h(l \<mapsto> head\<lparr>next_node := next_node fnode\<rparr>))(fst c := None)"
  have same: "?h x = h x" if "x \<in> fst ` set cs" for x
  proof -
    have "x \<noteq> fst c" "x \<noteq> l" using that cn ln by blast+
    then show ?thesis by simp
  qed
  have 1: "?h l = Some (head\<lparr>next_node := next_node fnode\<rparr>)" using cl by simp
  have 2: "chain ?h (next_node (head\<lparr>next_node := next_node fnode\<rparr>)) cs"
    using f(3) chain_frame[of cs ?h h, OF same] by simp
  from Cons.IH[OF 1 2 ln] obtain h' where h': "Clear_loop l ?h = Some (Inr h')"
    "h' l = Some (head\<lparr>next_node := next_node fnode, next_node := None\<rparr>)"
    "\<forall>x. x \<noteq> l \<longrightarrow> h' x = (if x \<in> fst ` set cs then None else ?h x)"
    by blast
  have "Clear_loop l h = Some (Inr h')"
    using Cons.prems(1) f h'(1) by (subst Clear_loop.simps) simp
  moreover have "\<forall>x. x \<noteq> l \<longrightarrow> h' x = (if x \<in> fst ` set (c # cs) then None else h x)"
    using h'(3) by auto
  moreover have "h' l = Some (head\<lparr>next_node := None\<rparr>)" using h'(2) by simp
  ultimately show ?case by blast
qed

lemma Clear_step:
  assumes lc: "list_cells s l cs"
  shows "\<exists>s'. Clear l s = Some (Inr s') \<and> local_step {} s l cs s' []"
proof -
  from lc obtain head where h: "nodes s l = Some head" "chain (nodes s) (next_node head) cs"
    and sz: "sizes s l = Some (of_nat (length cs))"
    by (auto simp: list_cells_def split: option.splits)
  from Clear_loop_chain[OF h list_cells_notin[OF lc]] obtain h' where
    h': "Clear_loop l (nodes s) = Some (Inr h')" "h' l = Some (head\<lparr>next_node := None\<rparr>)"
    "\<forall>x. x \<noteq> l \<longrightarrow> h' x = (if x \<in> fst ` set cs then None else nodes s x)"
    by blast
  let ?s = "s\<lparr>nodes := h', sizes := (sizes s)(l \<mapsto> 0)\<rparr>"
  have res: "Clear l s = Some (Inr ?s)" using h'(1) sz by (simp add: Clear_def)
  have c1: "list_cells ?s l []" using h'(2) by (simp add: list_cells_def chain_Nil)
  have c3: "dom h' \<subseteq> dom (nodes s) \<union> {}"
  proof
    fix x assume "x \<in> dom h'"
    then show "x \<in> dom (nodes s) \<union> {}"
      using h'(3) h(1) by (cases "x = l") (auto split: if_splits)
  qed
  have c4: "\<forall>x. x \<notin> insert l (fst ` set cs \<union> {}) \<longrightarrow> h' x = nodes s x"
    using h'(3) by auto
  have "local_step {} s l cs ?s []"
    unfolding local_step_def using c1 c3 c4 by simp
  with res show ?thesis by blast
qed

lemma traverse_chain:
  "chain (nodes s) p cs \<Longrightarrow> traverse ndebug s p None = Some (Inr (map snd cs))"
proof (induction cs arbitrary: p)
  case Nil
  then show ?case by (subst traverse.simps) (simp add: chain_Nil)
next
  case (Cons c cs)
  from Cons.prems obtain n where n: "p = Some (fst c)" "nodes s (fst c) = Some n" "val n = snd c"
      "chain (nodes s) (next_node n) cs"
    by (auto simp: chain_Cons)
  from Cons.IH[OF n(4)] show ?case
    using n(1-3) by (subst traverse.simps) (simp add: it_deref_def it_incr_def)
qed

lemma contents_cells: "list_cells s l cs \<Longrightarrow> contents ndebug l s = Some (Inr (map snd cs))"
  by (auto simp: list_cells_def contents_def list_begin_def list_end_def traverse_chain
      split: option.splits)

lemma rep_empty: "rep \<lparr>nodes = Map.empty, sizes = Map.empty\<rparr> Map.empty"
  by (simp add: rep_def)

lemma rep_construct:
  assumes r: "rep s A" and l: "l \<notin> dom (nodes s)"
  shows "rep (SingleLinkedList l s) (A(l \<mapsto> []))"
proof -
  let ?s = "SingleLinkedList l s"
  have lA: "l \<notin> dom A" using rep_dom_nodes[OF r] l by blast
  have new: "list_cells ?s l []"
    by (simp add: list_cells_def SingleLinkedList_def chain_Nil)
  have old: "list_cells ?s k ds" if "A k = Some ds" for k ds
  proof -
    have d: "list_cells s k ds" using r that by (rule rep_cells)
    have "l \<notin> insert k (fst ` set ds)" using list_cells_allocated[OF d] l by blast
    then have "\<And>x. x \<in> insert k (fst ` set ds) \<Longrightarrow> nodes ?s x = nodes s x"
      by (auto simp: SingleLinkedList_def)
    moreover have "sizes ?s k = sizes s k" using lA that by (auto simp: SingleLinkedList_def)
    ultimately show ?thesis using d by (intro list_cells_frame[of s k ds ?s]) auto
  qed
  have nl: "l \<notin> fst ` set ds" if "A k = Some ds" for k ds
    using list_cells_allocated[OF rep_cells[OF r that]] l by blast
  have 1: "dom (A(l \<mapsto> [])) = dom (sizes ?s)"
    using rep_dom[OF r] by (simp add: SingleLinkedList_def)
  have all2: "\<forall>k ds. (A(l \<mapsto> [])) k = Some ds \<longrightarrow>
      list_cells ?s k ds \<and> fst ` set ds \<inter> dom (A(l \<mapsto> [])) = {}"
  proof (intro allI impI)
    fix k ds assume a: "(A(l \<mapsto> [])) k = Some ds"
    show "list_cells ?s k ds \<and> fst ` set ds \<inter> dom (A(l \<mapsto> [])) = {}"
    proof (cases "k = l")
      case True
      then show ?thesis using a new by auto
    next
      case False
      then have k: "A k = Some ds" using a by simp
      then show ?thesis using old[OF k] nl[OF k] rep_cells_dom[OF r k] by auto
    qed
  qed
  have all3: "\<forall>k m ds es. (A(l \<mapsto> [])) k = Some ds \<and> (A(l \<mapsto> [])) m = Some es \<and> k \<noteq> m \<longrightarrow>
      fst ` set ds \<inter> fst ` set es = {}"
  proof (intro allI impI, elim conjE)
    fix k m ds es
    assume a: "(A(l \<mapsto> [])) k = Some ds" "(A(l \<mapsto> [])) m = Some es" "k \<noteq> m"
    show "fst ` set ds \<inter> fst ` set es = {}"
    proof (cases "k = l \<or> m = l")
      case True
      then show ?thesis using a by auto
    next
      case False
      then show ?thesis using a rep_disjoint[OF r, of k ds m es] by simp
    qed
  qed
  show ?thesis unfolding rep_def by (intro conjI 1 all2 all3)
qed

lemma rep_intro:
  assumes "dom A = dom (sizes s)"
    and "\<And>k ds. A k = Some ds \<Longrightarrow> list_cells s k ds"
    and "\<And>k ds. A k = Some ds \<Longrightarrow> fst ` set ds \<inter> dom A = {}"
    and "\<And>k m ds es. A k = Some ds \<Longrightarrow> A m = Some es \<Longrightarrow> k \<noteq> m \<Longrightarrow> fst ` set ds \<inter> fst ` set es = {}"
  shows "rep s A"
proof -
  have all2: "\<forall>k ds. A k = Some ds \<longrightarrow> list_cells s k ds \<and> fst ` set ds \<inter> dom A = {}"
    using assms(2,3) by (intro allI impI conjI)
  have all3: "\<forall>k m ds es. A k = Some ds \<and> A m = Some es \<and> k \<noteq> m \<longrightarrow> fst ` set ds \<inter> fst ` set es = {}"
    by (intro allI impI, elim conjE) (rule assms(4))
  show ?thesis unfolding rep_def by (intro conjI assms(1) all2 all3)
qed

lemma rep_notin: "rep s A \<Longrightarrow> A k = Some ds \<Longrightarrow> A l = Some cs \<Longrightarrow> l \<notin> fst ` set ds"
  using rep_cells_dom[of s A k ds] by blast

lemma rep_remove:
  assumes r: "rep s A" and l: "A l = Some []"
  shows "rep (s\<lparr>nodes := (nodes s)(l := None), sizes := (sizes s)(l := None)\<rparr>) (A(l := None))"
proof (rule rep_intro)
  let ?s = "s\<lparr>nodes := (nodes s)(l := None), sizes := (sizes s)(l := None)\<rparr>"
  show "dom (A(l := None)) = dom (sizes ?s)" using rep_dom[OF r] by simp
  fix k ds assume k: "(A(l := None)) k = Some ds"
  then have kl: "k \<noteq> l" and Ak: "A k = Some ds" by (auto split: if_splits)
  have d: "list_cells s k ds" using r Ak by (rule rep_cells)
  have "l \<notin> fst ` set ds" using r Ak l by (rule rep_notin)
  then have "\<And>x. x \<in> insert k (fst ` set ds) \<Longrightarrow> nodes ?s x = nodes s x"
    using kl by auto
  then show "list_cells ?s k ds" using d kl by (intro list_cells_frame[of s k ds ?s]) auto
  show "fst ` set ds \<inter> dom (A(l := None)) = {}" using rep_cells_dom[OF r Ak] by auto
  fix m es assume m: "(A(l := None)) m = Some es" "k \<noteq> m"
  then have Am: "A m = Some es" by (auto split: if_splits)
  show "fst ` set ds \<inter> fst ` set es = {}" using r Ak Am m(2) by (rule rep_disjoint)
qed

lemma destructor_rep:
  assumes r: "rep s A" and l: "A l = Some cs"
  shows "\<exists>s'. destructor l s = Some (Inr s') \<and> rep s' (A(l := None)) \<and>
              dom (nodes s') \<subseteq> dom (nodes s) - {l}"
proof -
  from Clear_step[OF rep_cells[OF r l]] obtain s1 where
    c: "Clear l s = Some (Inr s1)" and st: "local_step {} s l cs s1 []"
    by blast
  have r1: "rep s1 (A(l \<mapsto> []))" using r l st by (rule rep_update)
  let ?s = "s1\<lparr>nodes := (nodes s1)(l := None), sizes := (sizes s1)(l := None)\<rparr>"
  have "rep ?s ((A(l \<mapsto> []))(l := None))" using r1 by (rule rep_remove) simp
  then have "rep ?s (A(l := None))" by simp
  moreover have "destructor l s = Some (Inr ?s)" using c by (simp add: destructor_def)
  moreover have "dom (nodes ?s) \<subseteq> dom (nodes s) - {l}"
    using st by (auto simp: local_step_def)
  ultimately show ?thesis by blast
qed

lemma swap_self:
  assumes "nodes s l = Some head" "sizes s l = Some n"
  shows "swap l l s = Inr s"
proof -
  have "set_next (set_next (nodes s) l (next_node head)) l (next_node head) = nodes s"
    using assms(1) by (auto simp: set_next_apply)
  moreover have "(sizes s)(l \<mapsto> n) = sizes s" using assms(2) by (rule map_upd_triv)
  ultimately show ?thesis using assms by (simp add: swap_def)
qed

lemma rep_swap:
  assumes r: "rep s A" and l: "A l = Some cs" and o: "A other = Some ds"
  shows "\<exists>s'. swap l other s = Inr s' \<and> rep s' (A(l \<mapsto> ds, other \<mapsto> cs)) \<and>
              dom (nodes s') = dom (nodes s)"
proof (cases "l = other")
  case True
  from rep_cells[OF r l] obtain head n where "nodes s l = Some head" "sizes s l = Some n"
    by (auto simp: list_cells_def split: option.splits)
  then have "swap l l s = Inr s" by (rule swap_self)
  moreover have "A(l \<mapsto> ds, other \<mapsto> cs) = A" using True l o by (simp add: map_upd_triv)
  ultimately show ?thesis using r True by simp
next
  case False
  from rep_cells[OF r l] obtain hl where hl: "nodes s l = Some hl"
      "chain (nodes s) (next_node hl) cs" "sizes s l = Some (of_nat (length cs))"
    by (auto simp: list_cells_def split: option.splits)
  from rep_cells[OF r o] obtain ho where ho: "nodes s other = Some ho"
      "chain (nodes s) (next_node ho) ds" "sizes s other = Some (of_nat (length ds))"
    by (auto simp: list_cells_def split: option.splits)
  let ?h = "set_next (set_next (nodes s) l (next_node ho)) other (next_node hl)"
  let ?s = "s\<lparr>nodes := ?h, sizes := (sizes s)(l \<mapsto> of_nat (length ds), other \<mapsto> of_nat (length cs))\<rparr>"
  let ?A = "A(l \<mapsto> ds, other \<mapsto> cs)"
  have res: "swap l other s = Inr ?s" using hl ho by (simp add: swap_def)
  have hl': "?h l = Some (hl\<lparr>next_node := next_node ho\<rparr>)"
    and ho': "?h other = Some (ho\<lparr>next_node := next_node hl\<rparr>)"
    and same: "\<And>x. x \<noteq> l \<Longrightarrow> x \<noteq> other \<Longrightarrow> ?h x = nodes s x"
    using hl ho False by (auto simp: set_next_apply)
  have notin: "l \<notin> fst ` set es" "other \<notin> fst ` set es" if "A k = Some es" for k es
    using rep_notin[OF r that l] rep_notin[OF r that o] by auto
  have fr: "chain ?h p es = chain (nodes s) p es" if "A k = Some es" for k es p
  proof (rule chain_frame)
    fix a assume "a \<in> fst ` set es"
    then have "a \<noteq> l" "a \<noteq> other" using notin[OF that] by blast+
    then show "?h a = nodes s a" by (rule same)
  qed
  have cl: "list_cells ?s l ds"
    using hl' ho(2) fr[OF o] False by (simp add: list_cells_def)
  have co: "list_cells ?s other cs"
    using ho' hl(2) fr[OF l] False by (simp add: list_cells_def)
  have ck: "list_cells ?s k es" if "A k = Some es" "k \<noteq> l" "k \<noteq> other" for k es
  proof -
    have d: "list_cells s k es" using r that(1) by (rule rep_cells)
    have "nodes ?s x = nodes s x" if x: "x \<in> insert k (fst ` set es)" for x
    proof -
      have "x \<noteq> l" "x \<noteq> other" using x notin[OF \<open>A k = Some es\<close>] \<open>k \<noteq> l\<close> \<open>k \<noteq> other\<close> by blast+
      then show ?thesis by (simp add: same)
    qed
    then show ?thesis using d that(2,3) by (intro list_cells_frame[of s k es ?s]) auto
  qed
  have domA: "dom ?A = dom A" using l o by auto
  have "rep ?s ?A"
  proof (rule rep_intro)
    show "dom ?A = dom (sizes ?s)" using rep_dom[OF r] l o by auto
  next
    fix k es assume k: "?A k = Some es"
    show "list_cells ?s k es"
      using k cl co ck[of k es] False by (auto split: if_splits)
    have "\<exists>k'. A k' = Some es" using k l o by (auto split: if_splits)
    then show "fst ` set es \<inter> dom ?A = {}" unfolding domA using rep_cells_dom[OF r] by blast
  next
    fix k m es fs assume a: "?A k = Some es" "?A m = Some fs" "k \<noteq> m"
    have "\<exists>k' m'. A k' = Some es \<and> A m' = Some fs \<and> k' \<noteq> m'"
    proof -
      define \<pi> where "\<pi> x = (if x = l then other else if x = other then l else x)" for x
      have "A (\<pi> k) = Some es" "A (\<pi> m) = Some fs" "\<pi> k \<noteq> \<pi> m"
        using a l o False by (auto simp: \<pi>_def split: if_splits)
      then show ?thesis by blast
    qed
    then show "fst ` set es \<inter> fst ` set fs = {}" using rep_disjoint[OF r] by blast
  qed
  moreover have "dom ?h = dom (nodes s)"
    using hl ho by (auto simp: set_next_apply split: if_splits)
  ultimately show ?thesis using res by simp
qed

lemma SingleLinkedList_move_rep:
  assumes r: "rep s A" and o: "A other = Some cs" and l: "l \<notin> dom (nodes s)"
  shows "\<exists>s'. SingleLinkedList_move l other s = Inr s' \<and> rep s' (A(l \<mapsto> cs, other \<mapsto> []))"
proof -
  have r0: "rep (SingleLinkedList l s) (A(l \<mapsto> []))" using r l by (rule rep_construct)
  have "other \<noteq> l" using rep_dom_nodes[OF r] o l by blast
  then have o0: "(A(l \<mapsto> [])) other = Some cs" using o by simp
  have l0: "(A(l \<mapsto> [])) l = Some []" by simp
  from rep_swap[OF r0 l0 o0] obtain s' where
    s': "swap l other (SingleLinkedList l s) = Inr s'"
      "rep s' ((A(l \<mapsto> []))(l \<mapsto> cs, other \<mapsto> []))"
    by blast
  have "(A(l \<mapsto> []))(l \<mapsto> cs, other \<mapsto> []) = A(l \<mapsto> cs, other \<mapsto> [])" by simp
  with s' show ?thesis by (simp add: SingleLinkedList_move_def)
qed

section \<open>Comparison loops\<close>

lemma std_equal_chain:
  "chain (nodes s) p cs \<Longrightarrow> chain (nodes s) q ds \<Longrightarrow>
   std_equal ndebug s p None q None = Some (Inr (map snd cs = map snd ds))"
proof (induction cs arbitrary: p q ds)
  case Nil
  then show ?case by (subst std_equal.simps) (cases ds; auto simp: chain_Nil chain_Cons)
next
  case (Cons c cs)
  from Cons.prems(1) obtain n where n: "p = Some (fst c)" "nodes s (fst c) = Some n" "val n = snd c"
      "chain (nodes s) (next_node n) cs"
    by (auto simp: chain_Cons)
  show ?case
  proof (cases ds)
    case Nil
    then show ?thesis using Cons.prems(2) n by (subst std_equal.simps) (simp add: chain_Nil)
  next
    case (Cons d ds')
    with Cons.prems(2) obtain m where m: "q = Some (fst d)" "nodes s (fst d) = Some m" "val m = snd d"
        "chain (nodes s) (next_node m) ds'"
      by (auto simp: chain_Cons)
    from Cons.IH[OF n(4) m(4)] show ?thesis
      using n(1-3) m(1-3) Cons by (subst std_equal.simps) (simp add: it_deref_def it_incr_def)
  qed
qed

lemma std_lexicographical_compare_chain:
  fixes s :: "('a::linorder) state"
  shows "chain (nodes s) p cs \<Longrightarrow> chain (nodes s) q ds \<Longrightarrow>
   std_lexicographical_compare ndebug s p None q None =
     Some (Inr ((map snd cs, map snd ds) \<in> lexord {(x, y). x < y}))"
proof (induction cs arbitrary: p q ds)
  case Nil
  then show ?case
    by (subst std_lexicographical_compare.simps) (cases ds; auto simp: chain_Nil chain_Cons)
next
  case (Cons c cs)
  from Cons.prems(1) obtain n where n: "p = Some (fst c)" "nodes s (fst c) = Some n" "val n = snd c"
      "chain (nodes s) (next_node n) cs"
    by (auto simp: chain_Cons)
  show ?case
  proof (cases ds)
    case Nil
    then show ?thesis using Cons.prems(2) n
      by (subst std_lexicographical_compare.simps) (simp add: chain_Nil)
  next
    case (Cons d ds')
    with Cons.prems(2) obtain m where m: "q = Some (fst d)" "nodes s (fst d) = Some m" "val m = snd d"
        "chain (nodes s) (next_node m) ds'"
      by (auto simp: chain_Cons)
    from Cons.IH[OF n(4) m(4)] show ?thesis
      using n(1-3) m(1-3) Cons
      by (subst std_lexicographical_compare.simps) (auto simp: it_deref_def it_incr_def)
  qed
qed

lemma list_cells_begin:
  "list_cells s l cs \<Longrightarrow> \<exists>p. list_begin l s = Inr p \<and> chain (nodes s) p cs"
  by (auto simp: list_cells_def list_begin_def split: option.splits)

lemma list_cells_GetSize:
  "list_cells s l cs \<Longrightarrow> GetSize l s = Inr (sint (word_of_nat (length cs) :: 32 word))"
  by (simp add: list_cells_def GetSize_def ucast_of_nat_32)

lemma operator_eq_cells:
  assumes "list_cells s left cs" "list_cells s right ds"
  shows "operator_eq ndebug left right s = Some (Inr (map snd cs = map snd ds))"
proof (cases "left = right")
  case True
  then have "cs = ds" using assms list_cells_unique by blast
  then show ?thesis using True by (simp add: operator_eq_def)
next
  case False
  from list_cells_begin[OF assms(1)] obtain p where p: "list_begin left s = Inr p" "chain (nodes s) p cs"
    by blast
  from list_cells_begin[OF assms(2)] obtain q where q: "list_begin right s = Inr q" "chain (nodes s) q ds"
    by blast
  let ?m = "sint (word_of_nat (length cs) :: 32 word)" and ?n = "sint (word_of_nat (length ds) :: 32 word)"
  show ?thesis
  proof (cases "?m = ?n")
    case True
    then show ?thesis
      using False p q list_cells_GetSize[OF assms(1)] list_cells_GetSize[OF assms(2)]
        std_equal_chain[OF p(2) q(2), of ndebug]
      by (simp add: operator_eq_def list_end_def)
  next
    case ne: False
    then have "length cs \<noteq> length ds" by auto
    then have "map snd cs \<noteq> map snd ds" by (metis length_map)
    then show ?thesis
      using False ne list_cells_GetSize[OF assms(1)] list_cells_GetSize[OF assms(2)]
      by (simp add: operator_eq_def)
  qed
qed

lemma operator_lt_cells:
  fixes s :: "('a::linorder) state"
  assumes "list_cells s left cs" "list_cells s right ds"
  shows "operator_lt ndebug left right s = Some (Inr ((map snd cs, map snd ds) \<in> lexord {(x, y). x < y}))"
proof -
  from list_cells_begin[OF assms(1)] obtain p where p: "list_begin left s = Inr p" "chain (nodes s) p cs"
    by blast
  from list_cells_begin[OF assms(2)] obtain q where q: "list_begin right s = Inr q" "chain (nodes s) q ds"
    by blast
  show ?thesis
    using p q std_lexicographical_compare_chain[OF p(2) q(2), of ndebug]
    by (simp add: operator_lt_def list_end_def)
qed

section \<open>Building a chain\<close>

lemma chain_last_next:
  assumes "chain h p (cs @ [c])"
  shows "\<exists>n. h (fst c) = Some n \<and> next_node n = None"
  using chain_split[OF assms] by (auto simp: chain_Nil)

lemma append_node_InsertAfter:
  assumes "nodes s node = Some pn" "next_node pn = None" "a \<noteq> node"
  shows "append_node temp node x a s =
     (case InsertAfter True temp (Some node) x (Some a) s of Inl e \<Rightarrow> Inl e | Inr (it, s') \<Rightarrow> Inr s')"
  using assms
  by (auto simp: append_node_def InsertAfter_def Let_def set_next_def split: option.splits)

lemma append_node_step:
  assumes lc: "list_cells s temp cs" and a: "a \<notin> dom (nodes s)"
    and node: "node = last (temp # map fst cs)"
  shows "\<exists>s'. append_node temp node x a s = Inr s' \<and> local_step {a} s temp cs s' (cs @ [(a, x)])"
proof -
  from lc obtain d where full: "chain (nodes s) (Some temp) ((temp, d) # cs)"
    by (auto simp: list_cells_full)
  have "(temp, d) # cs = butlast ((temp, d) # cs) @ [last ((temp, d) # cs)]" by simp
  with full have "chain (nodes s) (Some temp) (butlast ((temp, d) # cs) @ [last ((temp, d) # cs)])"
    by simp
  from chain_last_next[OF this] obtain pn where
    pn: "nodes s (fst (last ((temp, d) # cs))) = Some pn" "next_node pn = None"
    by blast
  have "last (temp # map fst cs) = fst (last ((temp, d) # cs))"
    using last_map[of "(temp, d) # cs" fst] by simp
  then have nl: "node = fst (last ((temp, d) # cs))" using node by simp
  have "last (temp # map fst cs) = (temp # map fst cs) ! length cs"
    using last_conv_nth[of "temp # map fst cs"] by simp
  then have nk: "node = (temp # map fst cs) ! length cs" using node by simp
  have an: "a \<noteq> node" using pn(1) a nl by auto
  from InsertAfter_step[OF lc _ a, of "length cs" True x] obtain s' where
    i: "InsertAfter True temp (Some node) x (Some a) s = Inr (Some a, s')"
    and st: "local_step {a} s temp cs s' (cs @ [(a, x)])"
    using nk by auto
  have "append_node temp node x a s = Inr s'"
    using append_node_InsertAfter[of s node pn a temp x] pn nl an i by simp
  with st show ?thesis by blast
qed

lemma local_step_dom: "local_step F s l cs s' cs' \<Longrightarrow> dom (nodes s') \<subseteq> dom (nodes s) \<union> F"
  by (simp add: local_step_def)

lemma Initialize_loop_rep:
  assumes "rep s A" "A temp = Some cs" "node = last (temp # map fst cs)"
    and "distinct new" "set new \<inter> dom (nodes s) = {}" "length xs \<le> length new"
  shows "\<exists>s'. Initialize_loop temp node xs new s = Inr s' \<and>
           rep s' (A(temp \<mapsto> cs @ zip (take (length xs) new) xs)) \<and>
           dom (nodes s') \<subseteq> dom (nodes s) \<union> set new"
  using assms
proof (induction xs arbitrary: s A cs node new)
  case Nil
  then show ?case by (simp add: map_upd_triv)
next
  case (Cons x xs)
  from Cons.prems(6) obtain a new' where new: "new = a # new'" by (cases new) auto
  have a: "a \<notin> dom (nodes s)" using Cons.prems(5) new by auto
  from append_node_step[OF rep_cells[OF Cons.prems(1,2)] a Cons.prems(3), of x] obtain s1 where
    ap: "append_node temp node x a s = Inr s1"
    and st: "local_step {a} s temp cs s1 (cs @ [(a, x)])"
    by blast
  let ?A = "A(temp \<mapsto> cs @ [(a, x)])"
  have r1: "rep s1 ?A" using Cons.prems(1,2) st by (rule rep_update)
  have d1: "dom (nodes s1) \<subseteq> dom (nodes s) \<union> {a}" using st by (rule local_step_dom)
  have f1: "set new' \<inter> dom (nodes s1) = {}"
    using d1 Cons.prems(4,5) new by auto
  have "\<exists>s'. Initialize_loop temp a xs new' s1 = Inr s' \<and>
           rep s' (?A(temp \<mapsto> (cs @ [(a, x)]) @ zip (take (length xs) new') xs)) \<and>
           dom (nodes s') \<subseteq> dom (nodes s1) \<union> set new'"
    using Cons.prems(4,6) new by (intro Cons.IH[OF r1 _ _ _ f1]) auto
  then obtain s' where s': "Initialize_loop temp a xs new' s1 = Inr s'"
    "rep s' (?A(temp \<mapsto> (cs @ [(a, x)]) @ zip (take (length xs) new') xs))"
    "dom (nodes s') \<subseteq> dom (nodes s1) \<union> set new'"
    by blast
  have e1: "Initialize_loop temp node (x # xs) new s = Inr s'" using ap s'(1) new by simp
  have "?A(temp \<mapsto> (cs @ [(a, x)]) @ zip (take (length xs) new') xs) =
      A(temp \<mapsto> cs @ zip (take (length (x # xs)) new) (x # xs))"
    using new by simp
  with s'(2) have e2: "rep s' (A(temp \<mapsto> cs @ zip (take (length (x # xs)) new) (x # xs)))"
    by (simp only:)
  have e3: "dom (nodes s') \<subseteq> dom (nodes s) \<union> set new" using s'(3) d1 new by auto
  show ?case by (intro exI[of _ s'] conjI e1 e2 e3)
qed

lemma Initialize_finish_rep:
  assumes r: "rep s A" and l: "A l = Some old" and t: "A temp = Some cs" and lt: "l \<noteq> temp"
  shows "\<exists>s'. Initialize_finish l temp s = Some (Inr s') \<and> rep s' ((A(l \<mapsto> cs))(temp := None)) \<and>
           dom (nodes s') \<subseteq> dom (nodes s) - {temp}"
proof -
  from rep_swap[OF r l t] obtain s1 where sw: "swap l temp s = Inr s1"
    and r1: "rep s1 (A(l \<mapsto> cs, temp \<mapsto> old))" and d1: "dom (nodes s1) = dom (nodes s)"
    by blast
  have "(A(l \<mapsto> cs, temp \<mapsto> old)) temp = Some old" by simp
  from destructor_rep[OF r1 this] obtain s2 where de: "destructor temp s1 = Some (Inr s2)"
    and r2: "rep s2 ((A(l \<mapsto> cs, temp \<mapsto> old))(temp := None))"
    and d2: "dom (nodes s2) \<subseteq> dom (nodes s1) - {temp}"
    by blast
  have "(A(l \<mapsto> cs, temp \<mapsto> old))(temp := None) = (A(l \<mapsto> cs))(temp := None)" by simp
  then show ?thesis using sw de r2 d1 d2 by (auto simp: Initialize_finish_def)
qed

lemma Initialize_rep:
  assumes r: "rep s A" and l: "A l = Some old" and t: "temp \<notin> dom (nodes s)"
    and new: "distinct new" "set new \<inter> dom (nodes s) = {}" "temp \<notin> set new"
    and len: "length xs \<le> length new"
  shows "\<exists>s'. Initialize l xs temp new s = Some (Inr s') \<and>
           rep s' (A(l \<mapsto> zip (take (length xs) new) xs)) \<and>
           dom (nodes s') \<subseteq> dom (nodes s) \<union> set new"
proof -
  let ?s0 = "SingleLinkedList temp s"
  have r0: "rep ?s0 (A(temp \<mapsto> []))" using r t by (rule rep_construct)
  have tA: "A temp = None" using rep_dom_nodes[OF r] t by blast
  have lt: "l \<noteq> temp" using l tA by auto
  have d0: "dom (nodes ?s0) = insert temp (dom (nodes s))" by (simp add: SingleLinkedList_def)
  have f0: "set new \<inter> dom (nodes ?s0) = {}" using new(2,3) d0 by auto
  from Initialize_loop_rep[OF r0 _ _ new(1) f0 len, of temp "[]" temp] obtain s1 where
    lo: "Initialize_loop temp temp xs new ?s0 = Inr s1"
    and r1: "rep s1 ((A(temp \<mapsto> []))(temp \<mapsto> [] @ zip (take (length xs) new) xs))"
    and d1: "dom (nodes s1) \<subseteq> dom (nodes ?s0) \<union> set new"
    by auto
  let ?cs = "zip (take (length xs) new) xs"
  let ?A1 = "(A(temp \<mapsto> []))(temp \<mapsto> [] @ ?cs)"
  have l1: "?A1 l = Some old" using l lt by simp
  have t1: "?A1 temp = Some ?cs" by simp
  from Initialize_finish_rep[OF r1 l1 t1 lt] obtain s2 where
    fi: "Initialize_finish l temp s1 = Some (Inr s2)"
    and r2: "rep s2 ((?A1(l \<mapsto> ?cs))(temp := None))"
    and d2: "dom (nodes s2) \<subseteq> dom (nodes s1) - {temp}"
    by blast
  have "(?A1(l \<mapsto> ?cs))(temp := None) = A(l \<mapsto> ?cs)"
    using tA lt by (auto simp: fun_eq_iff)
  with r2 have r2': "rep s2 (A(l \<mapsto> ?cs))" by simp
  have "dom (nodes s2) \<subseteq> dom (nodes s) \<union> set new" using d2 d1 d0 by blast
  moreover have "Initialize l xs temp new s = Some (Inr s2)" using lo fi by (simp add: Initialize_def)
  ultimately show ?thesis using r2' by blast
qed


lemma map_snd_zip_take:
  "length xs \<le> length new \<Longrightarrow> map snd (zip (take (length xs) new) xs) = xs"
  by (simp add: map_snd_zip)

lemma rep_valid: "rep s A \<Longrightarrow> valid s"
  by (auto simp: valid_def)

lemma next_of_cell:
  assumes "chain h p (pre @ r # rs)"
  shows "\<exists>n. h (fst r) = Some n \<and> val n = snd r \<and>
             next_node n = (case rs of [] \<Rightarrow> None | r' # _ \<Rightarrow> Some (fst r'))"
proof -
  from chain_split[OF assms] obtain n where n: "h (fst r) = Some n" "val n = snd r"
      "chain h (next_node n) rs"
    by blast
  have "next_node n = (case rs of [] \<Rightarrow> None | r' # _ \<Rightarrow> Some (fst r'))"
    using n(3) by (cases rs) (auto simp: chain_Nil chain_Cons)
  with n show ?thesis by blast
qed

lemma Initialize_loop_list_rep:
  assumes "rep s A" "A temp = Some cs" "node = last (temp # map fst cs)"
    and "A other = Some (pre @ rs)" "other \<noteq> temp"
    and "it = (case rs of [] \<Rightarrow> None | r # _ \<Rightarrow> Some (fst r))"
    and "distinct new" "set new \<inter> dom (nodes s) = {}" "length rs \<le> length new"
  shows "\<exists>s'. Initialize_loop_list ndebug temp node it None new s = Some (Inr s') \<and>
           rep s' (A(temp \<mapsto> cs @ zip (take (length rs) new) (map snd rs))) \<and>
           dom (nodes s') \<subseteq> dom (nodes s) \<union> set new"
  using assms
proof (induction rs arbitrary: s A cs node new pre it)
  case Nil
  have "A(temp \<mapsto> cs @ zip (take (length []) new) (map snd [])) = A"
    using Nil.prems(2) by (simp add: map_upd_triv)
  moreover have "Initialize_loop_list ndebug temp node it None new s = Some (Inr s)"
    using Nil.prems(6) by (subst Initialize_loop_list.simps) simp
  ultimately show ?case using Nil.prems(1) by auto
next
  case (Cons r rs)
  from Cons.prems(9) obtain a new' where new: "new = a # new'" by (cases new) auto
  have a: "a \<notin> dom (nodes s)" using Cons.prems(8) new by auto
  have it: "it = Some (fst r)" using Cons.prems(6) by simp
  from rep_cells[OF Cons.prems(1,4)] obtain d where
    "chain (nodes s) (Some other) (((other, d) # pre) @ r # rs)"
    by (auto simp: list_cells_full)
  from next_of_cell[OF this] obtain rn where rn: "nodes s (fst r) = Some rn" "val rn = snd r"
    by blast
  from append_node_step[OF rep_cells[OF Cons.prems(1,2)] a Cons.prems(3), of "snd r"] obtain s1 where
    ap: "append_node temp node (snd r) a s = Inr s1"
    and st: "local_step {a} s temp cs s1 (cs @ [(a, snd r)])"
    by blast
  let ?A = "A(temp \<mapsto> cs @ [(a, snd r)])"
  have r1: "rep s1 ?A" using Cons.prems(1,2) st by (rule rep_update)
  have o1: "?A other = Some ((pre @ [r]) @ rs)" using Cons.prems(4,5) by simp
  from rep_cells[OF r1 o1] obtain d' where
    "chain (nodes s1) (Some other) (((other, d') # pre) @ r # rs)"
    by (auto simp: list_cells_full)
  from next_of_cell[OF this] obtain rn' where rn': "nodes s1 (fst r) = Some rn'"
    "next_node rn' = (case rs of [] \<Rightarrow> None | r' # _ \<Rightarrow> Some (fst r'))"
    by blast
  have d1: "dom (nodes s1) \<subseteq> dom (nodes s) \<union> {a}" using st by (rule local_step_dom)
  have f1: "set new' \<inter> dom (nodes s1) = {}"
    using d1 Cons.prems(7,8) new by auto
  have "\<exists>s'. Initialize_loop_list ndebug temp a (next_node rn') None new' s1 = Some (Inr s') \<and>
           rep s' (?A(temp \<mapsto> (cs @ [(a, snd r)]) @ zip (take (length rs) new') (map snd rs))) \<and>
           dom (nodes s') \<subseteq> dom (nodes s1) \<union> set new'"
    using Cons.prems(5,7,9) new rn'(2) by (intro Cons.IH[OF r1 _ _ o1 _ _ _ f1]) auto
  then obtain s' where s': "Initialize_loop_list ndebug temp a (next_node rn') None new' s1 = Some (Inr s')"
    "rep s' (?A(temp \<mapsto> (cs @ [(a, snd r)]) @ zip (take (length rs) new') (map snd rs)))"
    "dom (nodes s') \<subseteq> dom (nodes s1) \<union> set new'"
    by blast
  have e1: "Initialize_loop_list ndebug temp node it None new s = Some (Inr s')"
    using ap s'(1) new it rn rn'(1)
    by (subst Initialize_loop_list.simps) (simp add: it_deref_def it_incr_def)
  have "?A(temp \<mapsto> (cs @ [(a, snd r)]) @ zip (take (length rs) new') (map snd rs)) =
      A(temp \<mapsto> cs @ zip (take (length (r # rs)) new) (map snd (r # rs)))"
    using new by simp
  with s'(2) have e2: "rep s' (A(temp \<mapsto> cs @ zip (take (length (r # rs)) new) (map snd (r # rs))))"
    by (simp only:)
  have e3: "dom (nodes s') \<subseteq> dom (nodes s) \<union> set new" using s'(3) d1 new by auto
  show ?case by (intro exI[of _ s'] conjI e1 e2 e3)
qed

lemma Initialize_list_rep:
  assumes r: "rep s A" and l: "A l = Some old" and o: "A other = Some src" and lo: "l \<noteq> other"
    and t: "temp \<notin> dom (nodes s)"
    and new: "distinct new" "set new \<inter> dom (nodes s) = {}" "temp \<notin> set new"
    and len: "length src \<le> length new"
  shows "\<exists>s'. Initialize_list ndebug l other temp new s = Some (Inr s') \<and>
           rep s' (A(l \<mapsto> zip (take (length src) new) (map snd src))) \<and>
           dom (nodes s') \<subseteq> dom (nodes s) \<union> set new"
proof -
  let ?s0 = "SingleLinkedList temp s"
  have r0: "rep ?s0 (A(temp \<mapsto> []))" using r t by (rule rep_construct)
  have tA: "A temp = None" using rep_dom_nodes[OF r] t by blast
  have lt: "l \<noteq> temp" using l tA by auto
  have ot: "other \<noteq> temp" using o tA by auto
  have d0: "dom (nodes ?s0) = insert temp (dom (nodes s))" by (simp add: SingleLinkedList_def)
  have f0: "set new \<inter> dom (nodes ?s0) = {}" using new(2,3) d0 by auto
  have o0: "(A(temp \<mapsto> [])) other = Some ([] @ src)" using o ot by simp
  from list_cells_begin[OF rep_cells[OF r0 o0]] obtain first where
    b: "list_begin other ?s0 = Inr first" and ch: "chain (nodes ?s0) first ([] @ src)"
    by blast
  have first: "first = (case src of [] \<Rightarrow> None | r # _ \<Rightarrow> Some (fst r))"
    using ch by (cases src) (auto simp: chain_Nil chain_Cons)
  from Initialize_loop_list_rep[OF r0 _ _ o0 ot first new(1) f0 len, of "[]" temp ndebug] obtain s1 where
    loop: "Initialize_loop_list ndebug temp temp first None new ?s0 = Some (Inr s1)"
    and r1: "rep s1 ((A(temp \<mapsto> []))(temp \<mapsto> [] @ zip (take (length src) new) (map snd src)))"
    and d1: "dom (nodes s1) \<subseteq> dom (nodes ?s0) \<union> set new"
    by fastforce
  let ?cs = "zip (take (length src) new) (map snd src)"
  let ?A1 = "(A(temp \<mapsto> []))(temp \<mapsto> [] @ ?cs)"
  have l1: "?A1 l = Some old" using l lt by simp
  have t1: "?A1 temp = Some ?cs" by simp
  from Initialize_finish_rep[OF r1 l1 t1 lt] obtain s2 where
    fi: "Initialize_finish l temp s1 = Some (Inr s2)"
    and r2: "rep s2 ((?A1(l \<mapsto> ?cs))(temp := None))"
    and d2: "dom (nodes s2) \<subseteq> dom (nodes s1) - {temp}"
    by blast
  have "(?A1(l \<mapsto> ?cs))(temp := None) = A(l \<mapsto> ?cs)"
    using tA lt by (auto simp: fun_eq_iff)
  with r2 have r2': "rep s2 (A(l \<mapsto> ?cs))" by simp
  have "dom (nodes s2) \<subseteq> dom (nodes s) \<union> set new" using d2 d1 d0 by blast
  moreover have "Initialize_list ndebug l other temp new s = Some (Inr s2)"
    using b loop fi by (simp add: Initialize_list_def Let_def list_end_def)
  ultimately show ?thesis using r2' by blast
qed

lemma SingleLinkedList_init_rep:
  assumes r: "rep s A" and "l \<notin> dom (nodes s)" and "temp \<notin> dom (nodes s)" and "l \<noteq> temp"
    and "distinct new" and "set new \<inter> insert l (insert temp (dom (nodes s))) = {}"
    and "length S \<le> length new"
  shows "\<exists>s'. SingleLinkedList_init l S temp new s = Some (Inr s') \<and>
              rep s' (A(l \<mapsto> zip (take (length S) new) S))"
proof -
  let ?s0 = "SingleLinkedList l s"
  have r0: "rep ?s0 (A(l \<mapsto> []))" using r assms(2) by (rule rep_construct)
  have d0: "dom (nodes ?s0) = insert l (dom (nodes s))" by (simp add: SingleLinkedList_def)
  have t0: "temp \<notin> dom (nodes ?s0)" using assms(3,4) d0 by auto
  have f0: "set new \<inter> dom (nodes ?s0) = {}" using assms(6) d0 by auto
  have tn: "temp \<notin> set new" using assms(6) by auto
  have l0: "(A(l \<mapsto> [])) l = Some []" by simp
  from Initialize_rep[OF r0 l0 t0 assms(5) f0 tn assms(7)] obtain s' where
    i: "Initialize l S temp new ?s0 = Some (Inr s')"
    and r': "rep s' ((A(l \<mapsto> []))(l \<mapsto> zip (take (length S) new) S))"
    by blast
  have "(A(l \<mapsto> []))(l \<mapsto> zip (take (length S) new) S) = A(l \<mapsto> zip (take (length S) new) S)"
    by simp
  with r' have "rep s' (A(l \<mapsto> zip (take (length S) new) S))" by (simp only:)
  with i show ?thesis by (simp add: SingleLinkedList_init_def)
qed

lemma SingleLinkedList_copy_rep:
  assumes r: "rep s A" and a: "A a = Some cs" and b: "b \<notin> dom (nodes s)"
    and "temp \<notin> dom (nodes s)" and "b \<noteq> temp"
    and "distinct new" and "set new \<inter> insert b (insert temp (dom (nodes s))) = {}"
    and "length cs \<le> length new"
  shows "\<exists>s'. SingleLinkedList_copy ndebug b a temp new s = Some (Inr s') \<and>
              rep s' (A(b \<mapsto> zip (take (length cs) new) (map snd cs)))"
proof -
  let ?cs = "zip (take (length cs) new) (map snd cs)"
  let ?s0 = "SingleLinkedList b s"
  have tn: "temp \<notin> set new" and fn: "set new \<inter> dom (nodes s) = {}" and bn: "b \<notin> set new"
    using assms(7) by auto
  have r0: "rep ?s0 (A(b \<mapsto> []))" using r b by (rule rep_construct)
  have ab: "a \<noteq> b" using rep_dom_nodes[OF r] a b by blast
  have a0: "(A(b \<mapsto> [])) a = Some cs" using a ab by simp
  have b0: "(A(b \<mapsto> [])) b = Some []" by simp
  have d0: "dom (nodes ?s0) = insert b (dom (nodes s))" by (simp add: SingleLinkedList_def)
  have t0: "temp \<notin> dom (nodes ?s0)" using assms(4,5) d0 by auto
  have f0: "set new \<inter> dom (nodes ?s0) = {}" using fn bn d0 by auto
  from Initialize_list_rep[OF r0 b0 a0 ab[symmetric] t0 assms(6) f0 tn assms(8), of ndebug]
  obtain s' where i: "Initialize_list ndebug b a temp new ?s0 = Some (Inr s')"
    and r': "rep s' ((A(b \<mapsto> []))(b \<mapsto> ?cs))"
    by blast
  have "(A(b \<mapsto> []))(b \<mapsto> ?cs) = A(b \<mapsto> ?cs)" by simp
  with r' have "rep s' (A(b \<mapsto> ?cs))" by (simp only:)
  with i show ?thesis by (simp add: SingleLinkedList_copy_def)
qed

lemma assign_copy_rep:
  assumes r: "rep s A" and a: "A a = Some cs" and b: "A b = Some old" and ab: "a \<noteq> b"
    and "temp \<notin> dom (nodes s)"
    and "distinct new" and "set new \<inter> insert temp (dom (nodes s)) = {}"
    and "length cs \<le> length new"
  shows "\<exists>s'. assign_copy ndebug b a temp new s = Some (Inr (b, s')) \<and>
              rep s' (A(b \<mapsto> zip (take (length cs) new) (map snd cs)))"
proof -
  have tn: "temp \<notin> set new" and fn: "set new \<inter> dom (nodes s) = {}"
    using assms(7) by auto
  from Initialize_list_rep[OF r b a ab[symmetric] assms(5,6) fn tn assms(8), of ndebug]
  obtain s' where i: "Initialize_list ndebug b a temp new s = Some (Inr s')"
    and r': "rep s' (A(b \<mapsto> zip (take (length cs) new) (map snd cs)))"
    by blast
  then show ?thesis using ab by (auto simp: assign_copy_def)
qed

section \<open>Mutations keep the invariant\<close>

lemma position_nth:
  assumes "position s l pos" "list_cells s l cs"
  shows "\<exists>k\<le>length cs. pos = Some ((l # map fst cs) ! k)"
proof -
  from assms obtain cs' where "list_cells s l cs'" "pos \<in> Some ` set (l # map fst cs')"
    by (auto simp: position_def)
  with assms(2) have "pos \<in> Some ` set (l # map fst cs)" using list_cells_unique by blast
  then obtain x where "x \<in> set (l # map fst cs)" "pos = Some x" by blast
  then obtain k where "k < length (l # map fst cs)" "(l # map fst cs) ! k = x"
    unfolding in_set_conv_nth by blast
  then show ?thesis using \<open>pos = Some x\<close> by (intro exI[of _ k]) auto
qed

lemma EraseAfter_last:
  assumes "list_cells s l cs"
  shows "EraseAfter ndebug l (Some ((l # map fst cs) ! length cs)) s =
           (if ndebug then Inr (None, s) else Inl AssertionFailed)"
proof -
  from assms obtain d where full: "chain (nodes s) (Some l) ((l, d) # cs)"
    by (auto simp: list_cells_full)
  have "(l, d) # cs = butlast ((l, d) # cs) @ [last ((l, d) # cs)]" by simp
  with full have "chain (nodes s) (Some l) (butlast ((l, d) # cs) @ [last ((l, d) # cs)])"
    by simp
  from chain_last_next[OF this] obtain pn where
    pn: "nodes s (fst (last ((l, d) # cs))) = Some pn" "next_node pn = None"
    by blast
  have "fst (last ((l, d) # cs)) = last (l # map fst cs)"
    using last_map[of "(l, d) # cs" fst] by simp
  also have "\<dots> = (l # map fst cs) ! length cs"
    using last_conv_nth[of "l # map fst cs"] by simp
  finally show ?thesis using pn by (simp add: EraseAfter_def)
qed

lemma mutates_rep:
  assumes r: "rep s A" and m: "mutates l s s'"
  shows "\<exists>A'. rep s' A' \<and> dom A' = dom A \<and> (\<forall>k. k \<noteq> l \<longrightarrow> A' k = A k)"
  using m
proof cases
  case (by_PushFront a v)
  from by_PushFront(2) have "sizes s l \<noteq> None"
    by (auto simp: PushFront_def split: option.splits)
  then obtain cs where cs: "A l = Some cs" using rep_lookup[OF r] by blast
  from PushFront_step[OF rep_cells[OF r cs] by_PushFront(1), of v] by_PushFront(2)
  have "local_step {a} s l cs s' ((a, v) # cs)" by auto
  from rep_update[OF r cs this] show ?thesis using cs by (intro exI[of _ "A(l \<mapsto> (a, v) # cs)"]) auto
next
  case (by_InsertAfter a pos ndebug v it)
  from by_InsertAfter(2) obtain cs where lc: "list_cells s l cs" by (auto simp: position_def)
  then have "sizes s l \<noteq> None" by (simp add: list_cells_def)
  then obtain cs' where "A l = Some cs'" "list_cells s l cs'" using rep_lookup[OF r] by blast
  then have cs: "A l = Some cs" using list_cells_unique[OF lc] by simp
  from position_nth[OF by_InsertAfter(2) lc] obtain k where k: "k \<le> length cs"
    "pos = Some ((l # map fst cs) ! k)" by blast
  from InsertAfter_step[OF lc k(1) by_InsertAfter(1), of ndebug v] by_InsertAfter(3) k(2)
  have "local_step {a} s l cs s' (take k cs @ (a, v) # drop k cs)" by auto
  from rep_update[OF r cs this] show ?thesis
    using cs by (intro exI[of _ "A(l \<mapsto> take k cs @ (a, v) # drop k cs)"]) auto
next
  case (by_PopFront ndebug)
  show ?thesis
  proof (cases "A l")
    case None
    then have "sizes s l = None" using rep_dom[OF r] by (auto simp: domIff)
    then have "s' = s" using by_PopFront
      by (auto simp: PopFront_def IsEmpty_def split: option.splits sum.splits bool.splits if_splits)
    then show ?thesis using r by auto
  next
    case (Some cs)
    show ?thesis
    proof (cases cs)
      case Nil
      then have "s' = s" using PopFront_empty[of s l] rep_cells[OF r Some] by_PopFront
        by (cases ndebug) auto
      then show ?thesis using r by auto
    next
      case (Cons c cs')
      from PopFront_step[of s l c cs' ndebug] rep_cells[OF r Some] Cons by_PopFront
      have "local_step {} s l cs s' cs'" by auto
      from rep_update[OF r Some this] show ?thesis
        using Some by (intro exI[of _ "A(l \<mapsto> cs')"]) auto
    qed
  qed
next
  case (by_EraseAfter pos ndebug it)
  show ?thesis
  proof (cases "pos = None")
    case True
    then have "s' = s" using by_EraseAfter(2) by (auto simp: EraseAfter_def split: if_splits)
    then show ?thesis using r by auto
  next
    case False
    then have p: "position s l pos" using by_EraseAfter(1) by (auto simp: list_end_def)
    then obtain cs where lc: "list_cells s l cs" by (auto simp: position_def)
    then have "sizes s l \<noteq> None" by (simp add: list_cells_def)
    then obtain cs' where "A l = Some cs'" "list_cells s l cs'" using rep_lookup[OF r] by blast
    then have cs: "A l = Some cs" using list_cells_unique[OF lc] by simp
    from position_nth[OF p lc] obtain k where k: "k \<le> length cs"
      "pos = Some ((l # map fst cs) ! k)" by blast
    show ?thesis
    proof (cases "k < length cs")
      case True
      from EraseAfter_step[OF lc True, of ndebug] by_EraseAfter(2) k(2)
      have "local_step {} s l cs s' (take k cs @ drop (Suc k) cs)" by auto
      from rep_update[OF r cs this] show ?thesis
        using cs by (intro exI[of _ "A(l \<mapsto> take k cs @ drop (Suc k) cs)"]) auto
    next
      case False
      then have "k = length cs" using k(1) by simp
      then have "s' = s" using EraseAfter_last[OF lc, of ndebug] by_EraseAfter(2) k(2)
        by (auto split: if_splits)
      then show ?thesis using r by auto
    qed
  qed
next
  case by_Clear
  from by_Clear have "sizes s l \<noteq> None"
    by (auto simp: Clear_def split: option.splits sum.splits)
  then obtain cs where cs: "A l = Some cs" using rep_lookup[OF r] by blast
  from Clear_step[OF rep_cells[OF r cs]] by_Clear
  have "local_step {} s l cs s' []" by auto
  from rep_update[OF r cs this] show ?thesis using cs by (intro exI[of _ "A(l \<mapsto> [])"]) auto
qed

lemma valid_cells:
  assumes "rep s A" "list_cells s k ds"
  shows "A k = Some ds"
proof -
  have "sizes s k \<noteq> None" using assms(2) by (simp add: list_cells_def)
  then obtain ds' where "A k = Some ds'" "list_cells s k ds'" using rep_lookup[OF assms(1)] by blast
  then show ?thesis using list_cells_unique[OF assms(2)] by simp
qed

lemma mutates_frame:
  assumes "valid s" "mutates l s s'"
  shows "valid s' \<and> (\<forall>k ds. k \<noteq> l \<and> list_cells s k ds \<longrightarrow> list_cells s' k ds)"
proof -
  from assms(1) obtain A where r: "rep s A" by (auto simp: valid_def)
  from mutates_rep[OF r assms(2)] obtain A' where A': "rep s' A'" "\<forall>k. k \<noteq> l \<longrightarrow> A' k = A k"
    by blast
  have "list_cells s' k ds" if "k \<noteq> l" "list_cells s k ds" for k ds
  proof -
    have "A' k = Some ds" using valid_cells[OF r that(2)] A'(2) that(1) by simp
    then show ?thesis using rep_cells[OF A'(1)] by blast
  qed
  then show ?thesis using rep_valid[OF A'(1)] by blast
qed

lemma mutations_frame:
  assumes "(mutates l)\<^sup>*\<^sup>* s s'" "valid s" "k \<noteq> l" "list_cells s k ds"
  shows "valid s' \<and> list_cells s' k ds"
  using assms
proof (induction rule: rtranclp_induct)
  case base
  then show ?case by simp
next
  case (step y z)
  then have "valid y" "list_cells y k ds" by auto
  then show ?case using mutates_frame[OF \<open>valid y\<close> step.hyps(2)] step.prems(2) by blast
qed


lemma independent_valid:
  assumes v: "valid s" and a: "list_cells s a cs" and b: "list_cells s b cs'" and ab: "a \<noteq> b"
  shows "independent ndebug s a b"
proof -
  have 1: "contents ndebug a s' = contents ndebug a s" if "(mutates b)\<^sup>*\<^sup>* s s'" for s'
    using mutations_frame[OF that v ab a] contents_cells[OF a, of ndebug]
    by (simp add: contents_cells)
  have 2: "contents ndebug b s' = contents ndebug b s" if "(mutates a)\<^sup>*\<^sup>* s s'" for s'
    using mutations_frame[OF that v ab[symmetric] b] contents_cells[OF b, of ndebug]
    by (simp add: contents_cells)
  show ?thesis unfolding independent_def using 1 2 by blast
qed

lemma deep_copy_rep:
  assumes r: "rep s A" and a: "A a = Some cs" and b: "A b = Some cs'" and ab: "a \<noteq> b"
    and eq: "map snd cs' = map snd cs"
  shows "deep_copy ndebug s a b cs"
proof -
  have la: "list_cells s a cs" and lb: "list_cells s b cs'"
    using rep_cells[OF r] a b by auto
  have "operator_eq ndebug a b s = Some (Inr True)"
    using operator_eq_cells[OF la lb, of ndebug] eq by simp
  moreover have "fst ` set cs \<inter> fst ` set cs' = {}" using r a b ab by (rule rep_disjoint)
  moreover have "independent ndebug s a b"
    using rep_valid[OF r] la lb ab by (rule independent_valid)
  ultimately show ?thesis
    unfolding deep_copy_def
    using la lb contents_cells[OF la, of ndebug] contents_cells[OF lb, of ndebug] eq rep_valid[OF r]
    by auto
qed

lemma rep_list: "rep s A \<Longrightarrow> l \<in> dom (sizes s) \<Longrightarrow> \<exists>cs. A l = Some cs"
  using rep_dom[of s A] by (auto simp: domIff)

lemma reachable_valid: "reachable s \<Longrightarrow> valid s"
proof (induction rule: reachable.induct)
  case start
  then show ?case using rep_empty by (rule rep_valid)
next
  case (mutate s l s')
  then show ?case using mutates_frame by blast
next
  case (construct s l)
  then obtain A where "rep s A" by (auto simp: valid_def)
  from rep_construct[OF this construct.hyps(2)] show ?case by (rule rep_valid)
next
  case (construct_init s l temp new list s')
  then obtain A where r: "rep s A" by (auto simp: valid_def)
  from SingleLinkedList_init_rep[OF r construct_init.hyps(2-7)] construct_init.hyps(8)
  show ?case using rep_valid by auto
next
  case (construct_copy s l temp new other cs ndebug s')
  then obtain A where r: "rep s A" by (auto simp: valid_def)
  have o: "A other = Some cs" using r construct_copy.hyps(7) by (rule valid_cells)
  from SingleLinkedList_copy_rep[OF r o construct_copy.hyps(2,3,4,5,6,8), of ndebug]
    construct_copy.hyps(9)
  show ?case using rep_valid by auto
next
  case (construct_move s l other s')
  then obtain A where r: "rep s A" by (auto simp: valid_def)
  from rep_list[OF r construct_move.hyps(3)] obtain cs where "A other = Some cs" by blast
  from SingleLinkedList_move_rep[OF r this construct_move.hyps(2)] construct_move.hyps(4)
  show ?case using rep_valid by auto
next
  case (copy_assign s l temp new other cs ndebug this s')
  show ?case
  proof (cases "l = other")
    case True
    then show ?thesis using copy_assign by (simp add: assign_copy_def)
  next
    case False
    from copy_assign obtain A where r: "rep s A" by (auto simp: valid_def)
    have o: "A other = Some cs" using r copy_assign.hyps(6) by (rule valid_cells)
    from rep_list[OF r copy_assign.hyps(2)] obtain old where l: "A l = Some old" by blast
    from assign_copy_rep[OF r o l False[symmetric] copy_assign.hyps(3,4,5,7), of ndebug]
      copy_assign.hyps(8)
    show ?thesis using rep_valid by auto
  qed
next
  case (move_assign s l other this s')
  then show ?case by (simp add: assign_move_def Let_def)
next
  case (swap s l other s')
  then obtain A where r: "rep s A" by (auto simp: valid_def)
  from rep_list[OF r swap.hyps(2)] rep_list[OF r swap.hyps(3)]
  obtain cs ds where "A l = Some cs" "A other = Some ds" by blast
  from rep_swap[OF r this] swap.hyps(4) show ?case using rep_valid by auto
next
  case (destroy s l s')
  then obtain A where r: "rep s A" by (auto simp: valid_def)
  from rep_list[OF r destroy.hyps(2)] obtain cs where "A l = Some cs" by blast
  from destructor_rep[OF r this] destroy.hyps(3) show ?case using rep_valid by auto
qed

section \<open>The example stores are valid\<close>

lemma state_123_cells: "list_cells state_123 100 [(1, 1), (2, 2), (3, 3)]"
  by (simp add: list_cells_def chain_def state_123_def)

lemma state_123_rep: "rep state_123 [100 \<mapsto> [(1, 1), (2, 2), (3, 3)]]"
proof (rule rep_intro)
  show "dom [100 \<mapsto> [(1, 1), (2, 2), (3, 3)]] = dom (sizes state_123)"
    by (simp add: state_123_def)
qed (auto simp: state_123_cells split: if_splits)

lemma state_123_valid: "valid state_123"
  unfolding valid_def using state_123_rep by blast

lemma state_123_fresh: "200 \<notin> dom (nodes state_123)" "4 \<notin> dom (nodes state_123)"
  by (simp_all add: state_123_def)

lemma state_two_cells:
  "list_cells state_two 100 [(1, 1), (2, 2), (3, 3)]" "list_cells state_two 200 [(4, 9)]"
  by (simp_all add: list_cells_def chain_def state_two_def)

lemma state_two_rep: "rep state_two [100 \<mapsto> [(1, 1), (2, 2), (3, 3)], 200 \<mapsto> [(4, 9)]]"
proof (rule rep_intro)
  show "dom [100 \<mapsto> [(1, 1), (2, 2), (3, 3)], 200 \<mapsto> [(4, 9)]] = dom (sizes state_two)"
    by (auto simp: state_two_def)
qed (auto simp: state_two_cells split: if_splits)

lemma state_two_valid: "valid state_two"
  unfolding valid_def using state_two_rep by blast

lemma state_cmp_cells:
  "list_cells state_cmp 100 [(1, 1), (2, 2), (3, 3)]"
  "list_cells state_cmp 200 [(4, 1), (5, 2), (6, 4)]"
  "list_cells state_cmp 300 [(7, 1), (8, 2)]"
  "list_cells state_cmp 400 []"
  "list_cells state_cmp 500 [(9, 1)]"
  "list_cells state_cmp 600 [(10, 1), (11, 2), (12, 3)]"
  by (simp_all add: list_cells_def chain_def state_cmp_def)

section \<open>The pushing program\<close>

lemma unat_of_nat_64: "k < 2 ^ 64 \<Longrightarrow> unat (word_of_nat k :: 64 word) = k"
  by (simp add: unat_of_nat)

lemma pushes_fresh:
  assumes "Suc n < 2 ^ 40"
  shows "(word_of_nat (Suc n) :: 64 word) \<notin> insert big_list (word_of_nat ` {1..n})"
proof
  assume "(word_of_nat (Suc n) :: 64 word) \<in> insert big_list (word_of_nat ` {1..n})"
  then consider "(word_of_nat (Suc n) :: 64 word) = big_list"
    | k where "k \<le> n" "(word_of_nat (Suc n) :: 64 word) = word_of_nat k"
    by auto
  then show False
  proof cases
    case 1
    then have "unat (word_of_nat (Suc n) :: 64 word) = unat big_list" by simp
    moreover have "unat (word_of_nat (Suc n) :: 64 word) = Suc n"
      using assms by (intro unat_of_nat_64) simp
    ultimately show False using assms by (simp add: big_list_def)
  next
    case 2
    then have "unat (word_of_nat (Suc n) :: 64 word) = unat (word_of_nat k :: 64 word)" by simp
    moreover have "unat (word_of_nat (Suc n) :: 64 word) = Suc n"
      using assms by (intro unat_of_nat_64) simp
    moreover have "unat (word_of_nat k :: 64 word) = k"
      using assms 2(1) by (intro unat_of_nat_64) simp
    ultimately show False using 2(1) by simp
  qed
qed

lemma pushes_inv:
  "n < 2 ^ 40 \<Longrightarrow>
   reachable (pushes n) \<and> list_cells (pushes n) big_list (pushed n) \<and>
   dom (nodes (pushes n)) \<subseteq> insert big_list (word_of_nat ` {1..n})"
proof (induction n)
  case 0
  have "reachable (pushes 0)"
    using reachable.construct[OF reachable.start, of big_list] by simp
  moreover have "list_cells (pushes 0) big_list (pushed 0)"
    by (simp add: list_cells_def SingleLinkedList_def chain_Nil pushed_def)
  moreover have "dom (nodes (pushes 0)) \<subseteq> insert big_list (word_of_nat ` {1..0})"
    by (auto simp: SingleLinkedList_def split: if_splits)
  ultimately show ?case by blast
next
  case (Suc n)
  then have ih: "reachable (pushes n)" "list_cells (pushes n) big_list (pushed n)"
    "dom (nodes (pushes n)) \<subseteq> insert big_list (word_of_nat ` {1..n})"
    by auto
  let ?a = "word_of_nat (Suc n) :: 64 word"
  have fresh: "?a \<notin> dom (nodes (pushes n))" using pushes_fresh[OF Suc.prems] ih(3) by blast
  from PushFront_step[OF ih(2) fresh, of 0] obtain s' where
    p: "PushFront big_list 0 (Some ?a) (pushes n) = Inr s'"
    and st: "local_step {?a} (pushes n) big_list (pushed n) s' ((?a, 0) # pushed n)"
    by blast
  have eq: "pushes (Suc n) = s'" using p by simp
  have "big_list \<in> dom (sizes (pushes n))" using ih(2) by (auto simp: list_cells_def)
  then have 1: "reachable s'"
    using reachable.mutate[OF ih(1) _ mutates.by_PushFront[OF fresh p]] by simp
  have 2: "list_cells s' big_list (pushed (Suc n))"
    using st by (simp add: local_step_def pushed_def)
  have "dom (nodes s') \<subseteq> dom (nodes (pushes n)) \<union> {?a}" using st by (rule local_step_dom)
  then have 3: "dom (nodes s') \<subseteq> insert big_list (word_of_nat ` {1..Suc n})"
    using ih(3) by (auto simp: atLeastAtMostSuc_conv)
  show ?case unfolding eq using 1 2 3 by simp
qed

lemma pushed_length: "length (pushed n) = n"
  by (simp add: pushed_def)

lemma pushed_elements: "map snd (pushed n) = replicate n 0"
  by (simp add: pushed_def comp_def map_replicate_const)

lemma pushes_3:
  "reachable (pushes 3)" "list_cells (pushes 3) big_list [(3, 0), (2, 0), (1, 0)]"
proof -
  have "(3::nat) < 2 ^ 40" by simp
  from pushes_inv[OF this] show "reachable (pushes 3)" by simp
  have "pushed 3 = [(3, 0), (2, 0), (1, 0)]" by (simp add: pushed_def upt_rec)
  with pushes_inv[OF \<open>(3::nat) < 2 ^ 40\<close>] show "list_cells (pushes 3) big_list [(3, 0), (2, 0), (1, 0)]"
    by simp
qed

section \<open>The specified properties\<close>

text \<open>
  C1. The move assignment \<^verbatim>\<open>B = std::move(A)\<close> is to hand the elements of \<open>A\<close> to \<open>B\<close> and
  to leave \<open>A\<close> empty. The operator as written does neither: on the store with
  \<open>A = [1, 2, 3]\<close> at address 100 and \<open>B = [9]\<close> at address 200 it returns a reference to
  \<open>A\<close> and the store it was given, so \<open>B\<close> still holds 9 and \<open>A\<close> still holds its three
  elements.
\<close>

theorem assign_move_transfers_nothing:
  "assign_move 200 100 state_two = (100, state_two)
   \<and> contents True 200 (snd (assign_move 200 100 state_two)) = Some (Inr [9])
   \<and> contents True 100 (snd (assign_move 200 100 state_two)) = Some (Inr [1, 2, 3])
   \<and> IsEmpty 100 (snd (assign_move 200 100 state_two)) = Inr False
   \<and> GetSize 100 (snd (assign_move 200 100 state_two)) = Inr 3"
proof -
  have m: "assign_move 200 100 state_two = (100, state_two)"
    by (simp add: assign_move_def)
  have "contents True 200 state_two = Some (Inr [9])"
    using contents_cells[OF state_two_cells(2), of True] by simp
  moreover have "contents True 100 state_two = Some (Inr [1, 2, 3])"
    using contents_cells[OF state_two_cells(1), of True] by simp
  moreover have "IsEmpty 100 state_two = Inr False"
    by (simp add: IsEmpty_def state_two_def)
  moreover have "GetSize 100 state_two = Inr 3"
    by (simp add: GetSize_def state_two_def)
  ultimately show ?thesis by (simp add: m)
qed

text \<open>
  C2. The property as stated, with \<^verbatim>\<open>GetSize()\<close> for the size, fails: \<^verbatim>\<open>GetSize\<close> returns an
  \<^verbatim>\<open>int\<close>. After \<open>2^31\<close> calls of \<^verbatim>\<open>PushFront\<close> on one list the store is reachable, a
  traversal visits \<open>2^31\<close> nodes, and \<^verbatim>\<open>GetSize\<close> returns \<open>- 2^31\<close>.
\<close>

theorem GetSize_mismatch_counterexample:
  "reachable (pushes 2147483648)
   \<and> contents True big_list (pushes 2147483648) = Some (Inr (replicate 2147483648 0))
   \<and> GetSize big_list (pushes 2147483648) = Inr (- 2147483648)
   \<and> GetSize big_list (pushes 2147483648) \<noteq> Inr (int (length (replicate 2147483648 (0::int))))"
proof -
  have "(2147483648::nat) < 2 ^ 40" by simp
  from pushes_inv[OF this] have r: "reachable (pushes 2147483648)"
    and lc: "list_cells (pushes 2147483648) big_list (pushed 2147483648)"
    by auto
  have c: "contents True big_list (pushes 2147483648) = Some (Inr (replicate 2147483648 0))"
    using contents_cells[OF lc, of True] by (simp only: pushed_elements)
  have g: "GetSize big_list (pushes 2147483648) = Inr (- 2147483648)"
    using list_cells_GetSize[OF lc] by (simp add: pushed_length)
  show ?thesis using r c g by simp
qed

text \<open>
  C2, amended. In every store that the public operations reach, and for every list
  object \<open>l\<close> of it: the traversal from \<^verbatim>\<open>begin()\<close> to \<^verbatim>\<open>end()\<close> returns, the counter
  \<^verbatim>\<open>size_\<close> is the number of nodes it visits, the sentinel is not among them, and
  \<^verbatim>\<open>GetSize()\<close> is that number whenever it is at most \<open>2^31 - 1\<close>.
\<close>

theorem reachable_size_matches:
  assumes "reachable s" and "sizes s l = Some n"
  shows "\<exists>cs. list_cells s l cs \<and> l \<notin> fst ` set cs
     \<and> contents ndebug l s = Some (Inr (map snd cs))
     \<and> unat n = length cs
     \<and> (length cs \<le> 2147483647 \<longrightarrow> GetSize l s = Inr (int (length cs)))"
proof -
  from reachable_valid[OF assms(1)] obtain A where r: "rep s A" by (auto simp: valid_def)
  from rep_lookup[OF r assms(2)] obtain cs where lc: "list_cells s l cs" by blast
  have "unat n = length cs" using list_cells_size[OF lc] assms(2) by simp
  moreover have "length cs \<le> 2147483647 \<longrightarrow> GetSize l s = Inr (int (length cs))"
    using list_cells_GetSize[OF lc] by (simp add: narrow_small)
  ultimately show ?thesis
    using lc list_cells_notin[OF lc] contents_cells[OF lc, of ndebug] by blast
qed


theorem reachable_size_matches_witness:
  "reachable (pushes 3) \<and> sizes (pushes 3) big_list = Some 3
   \<and> (\<exists>cs. list_cells (pushes 3) big_list cs \<and> big_list \<notin> fst ` set cs
         \<and> contents True big_list (pushes 3) = Some (Inr (map snd cs))
         \<and> unat (3 :: 64 word) = length cs
         \<and> GetSize big_list (pushes 3) = Inr 3)"
proof -
  have sz: "sizes (pushes 3) big_list = Some 3" using pushes_3(2) by (simp add: list_cells_def)
  from reachable_size_matches[OF pushes_3(1) sz, of True] show ?thesis
    using pushes_3(1) sz by auto
qed

text \<open>
  C3. With assertions compiled out, \<^verbatim>\<open>PopFront\<close> on an empty list returns the store
  unchanged, and \<^verbatim>\<open>EraseAfter\<close> at the end position, or at a position whose node has no
  successor, returns the end iterator and the store unchanged. With assertions, each
  of the three calls ends in a failed assertion.
\<close>

theorem release_fallbacks:
  "(IsEmpty l s = Inr True \<longrightarrow> PopFront True l s = Inr s \<and> PopFront False l s = Inl AssertionFailed)
   \<and> EraseAfter True l list_end s = Inr (list_end, s)
   \<and> EraseAfter False l list_end s = Inl AssertionFailed
   \<and> (\<forall>p pn. nodes s p = Some pn \<and> next_node pn = None \<longrightarrow>
         EraseAfter True l (Some p) s = Inr (list_end, s) \<and>
         EraseAfter False l (Some p) s = Inl AssertionFailed)"
  by (simp add: PopFront_def EraseAfter_def list_end_def)

theorem release_fallbacks_witness:
  "IsEmpty 200 (SingleLinkedList 200 state_123) = Inr True
   \<and> PopFront True 200 (SingleLinkedList 200 state_123) = Inr (SingleLinkedList 200 state_123)
   \<and> PopFront False 200 (SingleLinkedList 200 state_123) = Inl AssertionFailed
   \<and> nodes state_123 3 = Some \<lparr>val = 3, next_node = None\<rparr>
   \<and> EraseAfter True 100 (Some 3) state_123 = Inr (list_end, state_123)
   \<and> EraseAfter False 100 (Some 3) state_123 = Inl AssertionFailed
   \<and> EraseAfter True 100 list_end state_123 = Inr (list_end, state_123)"
proof -
  have e: "IsEmpty 200 (SingleLinkedList 200 state_123) = Inr True"
    by (simp add: IsEmpty_def SingleLinkedList_def)
  have n: "nodes state_123 3 = Some \<lparr>val = 3, next_node = None\<rparr>"
    by (simp add: state_123_def)
  show ?thesis
    using release_fallbacks[of 200 "SingleLinkedList 200 state_123"]
      release_fallbacks[of 100 state_123] e n
    by simp
qed

text \<open>
  C4. Let \<open>l\<close> and \<open>temp\<close> be unused storage of a valid store and let the allocator hand
  out the unused, distinct addresses \<open>new\<close>, at least one for each element of \<open>S\<close>. Then
  the constructor from the sequence \<open>S\<close> returns, and in the list it builds the
  traversal yields \<open>S\<close> in order (the node of the \<open>i\<close>-th element is the \<open>i\<close>-th
  allocation), the counter is the length of \<open>S\<close>, and so is \<^verbatim>\<open>GetSize()\<close> up to
  \<open>2^31 - 1\<close> elements.
\<close>

theorem SingleLinkedList_init_roundtrip:
  assumes "valid s" and "l \<notin> dom (nodes s)" and "temp \<notin> dom (nodes s)" and "l \<noteq> temp"
    and "distinct new" and "set new \<inter> insert l (insert temp (dom (nodes s))) = {}"
    and "length S \<le> length new"
  shows "\<exists>s'. SingleLinkedList_init l S temp new s = Some (Inr s')
     \<and> contents ndebug l s' = Some (Inr S)
     \<and> list_cells s' l (zip (take (length S) new) S)
     \<and> (\<exists>n. sizes s' l = Some n \<and> unat n = length S)
     \<and> (length S \<le> 2147483647 \<longrightarrow> GetSize l s' = Inr (int (length S)))
     \<and> valid s'"
proof -
  from assms(1) obtain A where r: "rep s A" by (auto simp: valid_def)
  let ?cs = "zip (take (length S) new) S"
  from SingleLinkedList_init_rep[OF r assms(2-7)] obtain s' where
    i: "SingleLinkedList_init l S temp new s = Some (Inr s')"
    and r': "rep s' (A(l \<mapsto> ?cs))"
    by blast
  have lc: "list_cells s' l ?cs" using rep_cells[OF r', of l ?cs] by simp
  have len: "length ?cs = length S" using assms(7) by simp
  have c: "contents ndebug l s' = Some (Inr S)"
    using contents_cells[OF lc, of ndebug] map_snd_zip_take[OF assms(7)] by simp
  have sz: "\<exists>n. sizes s' l = Some n \<and> unat n = length S"
    using list_cells_size[OF lc] len by simp
  have g: "length S \<le> 2147483647 \<longrightarrow> GetSize l s' = Inr (int (length S))"
    using list_cells_GetSize[OF lc] len by (simp add: narrow_small)
  show ?thesis
    using i c lc sz g rep_valid[OF r'] by simp
qed

theorem SingleLinkedList_init_roundtrip_witness:
  "valid empty_state \<and> 100 \<notin> dom (nodes empty_state) \<and> 300 \<notin> dom (nodes empty_state)
   \<and> distinct [1, 2, 3 :: addr]
   \<and> set [1, 2, 3] \<inter> insert 100 (insert 300 (dom (nodes empty_state))) = {}
   \<and> (\<exists>s'. SingleLinkedList_init 100 [1, 2, 3] 300 [1, 2, 3] empty_state = Some (Inr s')
          \<and> contents True 100 s' = Some (Inr [1, 2, 3])
          \<and> list_cells s' 100 [(1, 1), (2, 2), (3, 3)]
          \<and> GetSize 100 s' = Inr 3)"
proof -
  have v: "valid empty_state" using rep_empty unfolding empty_state_def by (rule rep_valid)
  have f: "100 \<notin> dom (nodes empty_state)" "300 \<notin> dom (nodes empty_state)" "(100 :: addr) \<noteq> 300"
    "distinct [1, 2, 3 :: addr]"
    "set [1, 2, 3] \<inter> insert 100 (insert 300 (dom (nodes empty_state))) = {}"
    "length [1, 2, 3 :: int] \<le> length [1, 2, 3 :: addr]"
    by (simp_all add: empty_state_def)
  from SingleLinkedList_init_roundtrip[OF v f, of True] show ?thesis
    using v f by auto
qed

text \<open>
  C5. Let \<open>a\<close> be a list of a valid store with the cells \<open>cs\<close>, \<open>temp\<close> unused storage, and
  let the allocator hand out unused, distinct addresses, at least one for each cell.
  Copy-constructing \<open>b\<close> from \<open>a\<close> in unused storage, and copy-assigning \<open>a\<close> to another
  list \<open>b\<close>, both return and leave a deep copy: \<open>a\<close> keeps its cells, both lists yield
  the elements of \<open>cs\<close>, \<^verbatim>\<open>a == b\<close> is true, the two chains share no node, and no
  sequence of mutations of one list changes what the other yields. Assigning a list
  to itself returns the store as it was.
\<close>

theorem copy_is_deep:
  assumes "valid s" and "list_cells s a cs" and "temp \<notin> dom (nodes s)" and "b \<noteq> temp"
    and "distinct new" and "set new \<inter> insert b (insert temp (dom (nodes s))) = {}"
    and "length cs \<le> length new"
  shows "(b \<notin> dom (nodes s) \<longrightarrow>
           (\<exists>s'. SingleLinkedList_copy ndebug b a temp new s = Some (Inr s') \<and> deep_copy ndebug s' a b cs))
       \<and> (b \<in> dom (sizes s) \<and> b \<noteq> a \<longrightarrow>
           (\<exists>s'. assign_copy ndebug b a temp new s = Some (Inr (b, s')) \<and> deep_copy ndebug s' a b cs))
       \<and> assign_copy ndebug a a temp new s = Some (Inr (a, s))"
proof (intro conjI impI)
  from assms(1) obtain A where r: "rep s A" by (auto simp: valid_def)
  have a: "A a = Some cs" using r assms(2) by (rule valid_cells)
  let ?cs = "zip (take (length cs) new) (map snd cs)"
  have eq: "map snd ?cs = map snd cs"
    using map_snd_zip_take[of "map snd cs" new] assms(7) by simp
  have fn: "set new \<inter> insert temp (dom (nodes s)) = {}" using assms(6) by auto
  {
    assume b: "b \<notin> dom (nodes s)"
    have ab: "a \<noteq> b" using list_cells_allocated[OF assms(2)] b by blast
    from SingleLinkedList_copy_rep[OF r a b assms(3,4,5,6,7), of ndebug] obtain s' where
      i: "SingleLinkedList_copy ndebug b a temp new s = Some (Inr s')"
      and r': "rep s' (A(b \<mapsto> ?cs))"
      by blast
    have "deep_copy ndebug s' a b cs"
      using deep_copy_rep[OF r', of a cs b ?cs ndebug] a ab eq by simp
    with i show "\<exists>s'. SingleLinkedList_copy ndebug b a temp new s = Some (Inr s') \<and> deep_copy ndebug s' a b cs"
      by blast
  }
  {
    assume "b \<in> dom (sizes s) \<and> b \<noteq> a"
    then obtain old where b: "A b = Some old" and ab: "a \<noteq> b"
      using rep_dom[OF r] by (auto simp: domIff)
    from assign_copy_rep[OF r a b ab assms(3,5) fn assms(7), of ndebug] obtain s' where
      i: "assign_copy ndebug b a temp new s = Some (Inr (b, s'))"
      and r': "rep s' (A(b \<mapsto> ?cs))"
      by blast
    have "deep_copy ndebug s' a b cs"
      using deep_copy_rep[OF r', of a cs b ?cs ndebug] a ab eq by simp
    with i show "\<exists>s'. assign_copy ndebug b a temp new s = Some (Inr (b, s')) \<and> deep_copy ndebug s' a b cs"
      by blast
  }
  show "assign_copy ndebug a a temp new s = Some (Inr (a, s))"
    by (simp add: assign_copy_def)
qed

theorem copy_is_deep_witness:
  "valid state_123 \<and> list_cells state_123 100 [(1, 1), (2, 2), (3, 3)]
   \<and> 200 \<notin> dom (nodes state_123)
   \<and> (\<exists>s'. SingleLinkedList_copy True 200 100 300 [4, 5, 6] state_123 = Some (Inr s')
          \<and> deep_copy True s' 100 200 [(1, 1), (2, 2), (3, 3)])
   \<and> valid state_two \<and> list_cells state_two 100 [(1, 1), (2, 2), (3, 3)]
   \<and> 200 \<in> dom (sizes state_two)
   \<and> (\<exists>s'. assign_copy True 200 100 300 [5, 6, 7] state_two = Some (Inr (200, s'))
          \<and> deep_copy True s' 100 200 [(1, 1), (2, 2), (3, 3)])
   \<and> assign_copy True 100 100 300 [5, 6, 7] state_two = Some (Inr (100, state_two))"
proof -
  have f1: "300 \<notin> dom (nodes state_123)" "(200 :: addr) \<noteq> 300" "distinct [4, 5, 6 :: addr]"
    "set [4, 5, 6] \<inter> insert 200 (insert 300 (dom (nodes state_123))) = {}"
    "length [(1, 1), (2, 2), (3, 3 :: int) :: addr \<times> int] \<le> length [4, 5, 6 :: addr]"
    by (simp_all add: state_123_def)
  have f2: "300 \<notin> dom (nodes state_two)" "(200 :: addr) \<noteq> 300" "distinct [5, 6, 7 :: addr]"
    "set [5, 6, 7] \<inter> insert 200 (insert 300 (dom (nodes state_two))) = {}"
    "length [(1, 1), (2, 2), (3, 3 :: int) :: addr \<times> int] \<le> length [5, 6, 7 :: addr]"
    by (simp_all add: state_two_def)
  have b2: "200 \<in> dom (sizes state_two)" by (simp add: state_two_def)
  show ?thesis
    using copy_is_deep[OF state_123_valid state_123_cells f1, of True]
      copy_is_deep[OF state_two_valid state_two_cells(1) f2, of True]
      state_123_valid state_123_cells state_123_fresh(1) state_two_valid state_two_cells(1) b2
    by simp
qed

text \<open>
  C6. In a list with the cells \<open>cs\<close>, let \<open>pos\<close> be the position number \<open>k\<close>, counting
  the sentinel as position 0, and let it have a successor (\<open>k < length cs\<close>). Then
  \<^verbatim>\<open>EraseAfter(pos)\<close> returns; the list holds the same nodes with the same elements in the
  same order, but for the one behind \<open>pos\<close>, which is destroyed; the counter is one less;
  and the iterator returned is at the node now behind \<open>pos\<close>, or the end iterator when
  the last node was removed.
\<close>

theorem EraseAfter_removes_successor:
  assumes "list_cells s l cs" and "k < length cs"
  shows "\<exists>s'. EraseAfter ndebug l (Some ((l # map fst cs) ! k)) s =
               Inr (if Suc k < length cs then Some (fst (cs ! Suc k)) else list_end, s')
     \<and> list_cells s' l (take k cs @ drop (Suc k) cs)
     \<and> contents ndebug l s' = Some (Inr (take k (map snd cs) @ drop (Suc k) (map snd cs)))
     \<and> nodes s' (fst (cs ! k)) = None
     \<and> (\<exists>n n'. sizes s l = Some n \<and> sizes s' l = Some n' \<and> n' = n - 1 \<and> unat n' = length cs - 1)"
proof -
  from EraseAfter_step[OF assms, of ndebug] obtain s' where
    e: "EraseAfter ndebug l (Some ((l # map fst cs) ! k)) s =
          Inr (if Suc k < length cs then Some (fst (cs ! Suc k)) else None, s')"
    and st: "local_step {} s l cs s' (take k cs @ drop (Suc k) cs)"
    and gone: "nodes s' (fst (cs ! k)) = None"
    by blast
  from st have lc: "list_cells s' l (take k cs @ drop (Suc k) cs)"
    by (simp add: local_step_def)
  have c: "contents ndebug l s' = Some (Inr (take k (map snd cs) @ drop (Suc k) (map snd cs)))"
    using contents_cells[OF lc, of ndebug] by (simp add: take_map drop_map)
  from list_cells_size[OF lc] obtain n' where n': "sizes s' l = Some n'"
      "unat n' = length (take k cs @ drop (Suc k) cs)"
    by blast
  have "sizes s l = Some (of_nat (length cs))" using assms(1) by (simp add: list_cells_def)
  moreover have "n' = of_nat (length cs) - 1"
    using lc n'(1) assms(2) by (cases "length cs") (auto simp: list_cells_def)
  moreover have "unat n' = length cs - 1" using n'(2) assms(2) by simp
  ultimately show ?thesis using e lc c gone n'(1) by (auto simp: list_end_def)
qed

theorem EraseAfter_removes_successor_witness:
  "list_cells state_123 100 [(1, 1), (2, 2), (3, 3)]
   \<and> (\<exists>s'. EraseAfter False 100 (Some 1) state_123 = Inr (Some 3, s')
          \<and> list_cells s' 100 [(1, 1), (3, 3)]
          \<and> contents False 100 s' = Some (Inr [1, 3])
          \<and> nodes s' 2 = None
          \<and> sizes s' 100 = Some 2)"
  using EraseAfter_removes_successor[OF state_123_cells, of 1 False] state_123_cells
  by (auto simp: state_123_def)

text \<open>
  C7. For two list objects of one store, with the cells \<open>cs\<close> and \<open>ds\<close> (they may be the
  same object): \<^verbatim>\<open>==\<close> returns whether the lists are equally long and equal element by
  element; \<^verbatim>\<open><\<close> returns whether the elements of the left list come before those of
  the right one in the lexicographic order; \<^verbatim>\<open>!=\<close> negates \<^verbatim>\<open>==\<close>, \<^verbatim>\<open>>\<close> is \<^verbatim>\<open><\<close> with the
  operands exchanged, \<^verbatim>\<open><=\<close> negates \<^verbatim>\<open>>\<close> and \<^verbatim>\<open>>=\<close> negates \<^verbatim>\<open><\<close>. The element type is
  linearly ordered.
\<close>

theorem comparison_operators:
  fixes s :: "('a::linorder) state"
  assumes "list_cells s left cs" and "list_cells s right ds"
  shows "operator_eq ndebug left right s = Some (Inr (map snd cs = map snd ds))
     \<and> (operator_eq ndebug left right s = Some (Inr True) \<longleftrightarrow>
          length cs = length ds \<and> (\<forall>i<length cs. snd (cs ! i) = snd (ds ! i)))
     \<and> operator_ne ndebug left right s = negate (operator_eq ndebug left right s)
     \<and> operator_lt ndebug left right s = Some (Inr ((map snd cs, map snd ds) \<in> lexord {(x, y). x < y}))
     \<and> operator_le ndebug left right s = Some (Inr ((map snd ds, map snd cs) \<notin> lexord {(x, y). x < y}))
     \<and> operator_gt ndebug left right s = Some (Inr ((map snd ds, map snd cs) \<in> lexord {(x, y). x < y}))
     \<and> operator_ge ndebug left right s = Some (Inr ((map snd cs, map snd ds) \<notin> lexord {(x, y). x < y}))
     \<and> operator_ne ndebug left right s = Some (Inr (map snd cs \<noteq> map snd ds))"
proof -
  have "(map snd cs = map snd ds) = (length cs = length ds \<and> (\<forall>i<length cs. snd (cs ! i) = snd (ds ! i)))"
    by (auto simp: list_eq_iff_nth_eq)
  then show ?thesis
    using operator_eq_cells[OF assms, of ndebug] operator_lt_cells[OF assms, of ndebug]
      operator_lt_cells[OF assms(2,1), of ndebug]
    by (simp add: operator_ne_def operator_le_def operator_gt_def operator_ge_def negate_def)
qed


theorem comparison_operators_witness:
  "list_cells state_cmp 400 [] \<and> list_cells state_cmp 500 [(9, 1)]
   \<and> operator_lt True 400 500 state_cmp = Some (Inr True)
   \<and> operator_lt True 300 100 state_cmp = Some (Inr True)
   \<and> operator_lt True 100 200 state_cmp = Some (Inr True)
   \<and> operator_eq True 100 600 state_cmp = Some (Inr True)
   \<and> operator_eq True 100 200 state_cmp = Some (Inr False)
   \<and> operator_ne True 100 200 state_cmp = Some (Inr True)
   \<and> operator_le True 100 600 state_cmp = Some (Inr True)
   \<and> operator_gt True 200 100 state_cmp = Some (Inr True)
   \<and> operator_ge True 100 200 state_cmp = Some (Inr False)
   \<and> operator_lt True 100 100 state_cmp = Some (Inr False)"
  using comparison_operators[OF state_cmp_cells(4) state_cmp_cells(5), of True]
    comparison_operators[OF state_cmp_cells(3) state_cmp_cells(1), of True]
    comparison_operators[OF state_cmp_cells(1) state_cmp_cells(2), of True]
    comparison_operators[OF state_cmp_cells(1) state_cmp_cells(6), of True]
    comparison_operators[OF state_cmp_cells(2) state_cmp_cells(1), of True]
    comparison_operators[OF state_cmp_cells(1) state_cmp_cells(1), of True]
    state_cmp_cells(4,5)
  by (simp add: negate_def)

text \<open>
  C8. \<^verbatim>\<open>InsertAfter(before_begin(), v)\<close> ends as \<^verbatim>\<open>PushFront(v)\<close> does, in the same store
  when it returns, and the iterator it returns is \<^verbatim>\<open>begin()\<close> of the new list, at a node
  that holds \<open>v\<close>.
\<close>

theorem InsertAfter_before_begin_is_PushFront:
  "InsertAfter ndebug l (before_begin l) v new s =
     (case PushFront l v new s of Inl e \<Rightarrow> Inl e | Inr s' \<Rightarrow> Inr (new, s'))
   \<and> (\<forall>it s'. InsertAfter ndebug l (before_begin l) v new s = Inr (it, s') \<longrightarrow>
         list_begin l s' = Inr it \<and> it_deref ndebug s' it = Inr v)"
  by (auto simp add: InsertAfter_def PushFront_def before_begin_def it_bool_def list_begin_def
      it_deref_def set_next_def split: option.splits)

theorem InsertAfter_before_begin_is_PushFront_witness:
  "(\<exists>s'. PushFront 100 0 (Some 4) state_123 = Inr s'
        \<and> InsertAfter False 100 (before_begin 100) 0 (Some 4) state_123 = Inr (Some 4, s')
        \<and> list_begin 100 s' = Inr (Some 4)
        \<and> it_deref False s' (Some 4) = Inr 0
        \<and> contents False 100 s' = Some (Inr [0, 1, 2, 3]))"
proof -
  from PushFront_step[OF state_123_cells state_123_fresh(2), of 0] obtain s' where
    p: "PushFront 100 0 (Some 4) state_123 = Inr s'"
    and st: "local_step {4} state_123 100 [(1, 1), (2, 2), (3, 3)] s' [(4, 0), (1, 1), (2, 2), (3, 3)]"
    by blast
  have c: "contents False 100 s' = Some (Inr [0, 1, 2, 3])"
    using contents_cells[of s' 100 "[(4, 0), (1, 1), (2, 2), (3, 3)]" False] st
    by (simp add: local_step_def)
  have i: "InsertAfter False 100 (before_begin 100) 0 (Some 4) state_123 = Inr (Some 4, s')"
    using InsertAfter_before_begin_is_PushFront[of False 100 0 "Some 4" state_123] p by simp
  then show ?thesis
    using InsertAfter_before_begin_is_PushFront[of False 100 0 "Some 4" state_123] p c by simp
qed

text \<open>
  C9. Let \<open>a\<close> be a list of a valid store with the cells \<open>cs\<close>, and \<open>b\<close> free storage.
  Move-constructing \<open>b\<close> from \<open>a\<close> returns, with the store of the swap of the freshly
  built empty \<open>b\<close> with \<open>a\<close>; afterwards \<open>b\<close> holds the very nodes \<open>cs\<close>, so
  the same elements in the same order, with the counter that \<open>a\<close> had, and \<open>a\<close> is empty:
  no cells, \<^verbatim>\<open>GetSize() == 0\<close>, \<^verbatim>\<open>begin() == end()\<close>. The store is valid again.
\<close>

theorem SingleLinkedList_move_transfers:
  assumes "valid s" and "list_cells s a cs" and "b \<notin> dom (nodes s)"
  shows "\<exists>s'. SingleLinkedList_move b a s = Inr s'
     \<and> swap b a (SingleLinkedList b s) = Inr s'
     \<and> list_cells s' b cs
     \<and> contents ndebug b s' = Some (Inr (map snd cs))
     \<and> contents ndebug a s = Some (Inr (map snd cs))
     \<and> sizes s' b = sizes s a
     \<and> GetSize b s' = GetSize a s
     \<and> list_cells s' a []
     \<and> contents ndebug a s' = Some (Inr [])
     \<and> GetSize a s' = Inr 0
     \<and> IsEmpty a s' = Inr True
     \<and> list_begin a s' = Inr list_end
     \<and> valid s'"
proof -
  from assms(1) obtain A where r: "rep s A" by (auto simp: valid_def)
  have "sizes s a \<noteq> None" using assms(2) by (simp add: list_cells_def)
  then obtain cs' where "A a = Some cs'" "list_cells s a cs'" using rep_lookup[OF r] by blast
  then have a: "A a = Some cs" using list_cells_unique[OF assms(2)] by simp
  from SingleLinkedList_move_rep[OF r a assms(3)] obtain s' where
    m: "SingleLinkedList_move b a s = Inr s'" and r': "rep s' (A(b \<mapsto> cs, a \<mapsto> []))"
    by blast
  have ab: "a \<noteq> b" using list_cells_allocated[OF assms(2)] assms(3) by blast
  have lb: "list_cells s' b cs" using rep_cells[OF r', of b cs] ab by simp
  have la: "list_cells s' a []" using rep_cells[OF r', of a "[]"] by simp
  have sz: "sizes s' b = sizes s a" using lb assms(2) by (simp add: list_cells_def)
  have "GetSize b s' = GetSize a s" using sz by (simp add: GetSize_def)
  moreover have "GetSize a s' = Inr 0" using la by (simp add: list_cells_def GetSize_def)
  moreover have "IsEmpty a s' = Inr True" "list_begin a s' = Inr list_end"
    using la by (auto simp: list_cells_def IsEmpty_def list_begin_def list_end_def chain_Nil
        split: option.splits)
  moreover have "valid s'" using r' by (auto simp: valid_def)
  moreover have "swap b a (SingleLinkedList b s) = Inr s'"
    using m by (simp add: SingleLinkedList_move_def)
  ultimately show ?thesis
    using m lb la sz contents_cells[OF lb, of ndebug] contents_cells[OF la, of ndebug]
      contents_cells[OF assms(2), of ndebug]
    by simp
qed

theorem SingleLinkedList_move_transfers_witness:
  "valid state_123 \<and> list_cells state_123 100 [(1, 1), (2, 2), (3, 3)]
   \<and> 200 \<notin> dom (nodes state_123)
   \<and> (\<exists>s'. SingleLinkedList_move 200 100 state_123 = Inr s'
          \<and> contents True 200 s' = Some (Inr [1, 2, 3])
          \<and> sizes s' 200 = Some 3
          \<and> GetSize 200 s' = Inr 3
          \<and> contents True 100 s' = Some (Inr [])
          \<and> GetSize 100 s' = Inr 0
          \<and> list_begin 100 s' = Inr list_end
          \<and> valid s')"
  using SingleLinkedList_move_transfers[OF state_123_valid state_123_cells state_123_fresh(1), of True]
    state_123_valid state_123_cells state_123_fresh(1)
  by (auto simp: state_123_def GetSize_def)

text \<open>
  C10. \<^verbatim>\<open>GetSize()\<close> returns the counter narrowed to a 32-bit \<^verbatim>\<open>int\<close>. For a list with the
  cells \<open>cs\<close> that is the number of cells read as a 32-bit two's complement value: the
  number itself up to \<open>2^31 - 1\<close>; beyond that a smaller value, for instance
  \<open>- 2^31\<close> for \<open>2^31\<close> cells and 0 for \<open>2^32\<close> cells.
\<close>

theorem GetSize_narrowing:
  assumes "list_cells s l cs"
  shows "GetSize l s = Inr (sint (word_of_nat (length cs) :: 32 word))
       \<and> (length cs \<le> 2147483647 \<longrightarrow> GetSize l s = Inr (int (length cs)))
       \<and> (length cs > 2147483647 \<longrightarrow> (\<exists>k. GetSize l s = Inr k \<and> k < int (length cs)))
       \<and> (length cs = 2147483648 \<longrightarrow> GetSize l s = Inr (- 2147483648))
       \<and> (length cs = 4294967296 \<longrightarrow> GetSize l s = Inr 0)"
proof -
  from assms have sz: "sizes s l = Some (of_nat (length cs))"
    by (simp add: list_cells_def)
  have g: "GetSize l s = Inr (sint (word_of_nat (length cs) :: 32 word))"
    by (simp add: GetSize_def sz ucast_of_nat_32)
  moreover have "length cs \<le> 2147483647 \<longrightarrow> GetSize l s = Inr (int (length cs))"
    by (simp add: g narrow_small)
  moreover have "length cs > 2147483647 \<longrightarrow> (\<exists>k. GetSize l s = Inr k \<and> k < int (length cs))"
    using sint_32_less[of "word_of_nat (length cs)"] by (auto simp: g)
  moreover have "length cs = 2147483648 \<longrightarrow> GetSize l s = Inr (- 2147483648)"
    by (simp add: g)
  moreover have "length cs = 4294967296 \<longrightarrow> GetSize l s = Inr 0"
    by (simp add: g)
  ultimately show ?thesis by blast
qed

theorem GetSize_narrowing_witness:
  "list_cells state_123 100 [(1, 1), (2, 2), (3, 3)] \<and> GetSize 100 state_123 = Inr 3
   \<and> list_cells (pushes 2147483648) big_list (pushed 2147483648)
   \<and> length (pushed 2147483648) = 2147483648
   \<and> GetSize big_list (pushes 2147483648) = Inr (- 2147483648)
   \<and> list_cells (pushes 4294967296) big_list (pushed 4294967296)
   \<and> length (pushed 4294967296) = 4294967296
   \<and> GetSize big_list (pushes 4294967296) = Inr 0"
proof -
  have "(2147483648::nat) < 2 ^ 40" by simp
  from pushes_inv[OF this] have lc: "list_cells (pushes 2147483648) big_list (pushed 2147483648)"
    by simp
  have "(4294967296::nat) < 2 ^ 40" by simp
  from pushes_inv[OF this] have lc': "list_cells (pushes 4294967296) big_list (pushed 4294967296)"
    by simp
  show ?thesis
    using GetSize_narrowing[OF state_123_cells] GetSize_narrowing[OF lc] GetSize_narrowing[OF lc']
      state_123_cells lc lc'
    by (simp add: pushed_length)
qed

end
